theory Spec2Isabelle
  imports Main "HOL-Library.Word" "HOL-Library.Multiset"
begin

section \<open>The voice engine of MPESynthesiser\<close>

text \<open>
  A shallow embedding of \<^verbatim>\<open>juce_MPESynthesiser.cpp\<close>: the voice pool, the allocator
  (\<^verbatim>\<open>findFreeVoice\<close>, \<^verbatim>\<open>findVoiceToSteal\<close>) and the note-lifecycle handlers.

  The pool \<^verbatim>\<open>voices\<close> is an \<^verbatim>\<open>OwnedArray<MPESynthesiserVoice>\<close>. It is a list of voice
  states here, and a voice pointer is the voice's index in that list, \<open>None\<close> standing
  for \<^verbatim>\<open>nullptr\<close>. The two locks and the debug-only \<^verbatim>\<open>jassert\<close>s have no effect on the
  values computed and have no counterpart below.
\<close>

subsection \<open>Notes and voices\<close>

datatype KeyState = off | keyDown | sustained | keyDownAndSustained

text \<open>
  \<^verbatim>\<open>MPEValue\<close> is declared elsewhere; the engine only ever builds one, by
  \<^verbatim>\<open>MPEValue::from7BitInt\<close>, so a value is represented by the 7-bit integer it was made of.
\<close>

datatype MPEValue = from7BitInt nat

text \<open>
  \<^verbatim>\<open>MPENote\<close>: the fields the engine reads and writes (\<^verbatim>\<open>initialNote\<close>, \<^verbatim>\<open>keyState\<close>,
  \<^verbatim>\<open>noteOffVelocity\<close>), the continuous controls of the note, and the channel and
  identifier the note is known by upstream.
\<close>

record MPENote =
  noteID :: "16 word"
  midiChannel :: "8 word"
  initialNote :: "8 word"
  noteOnVelocity :: MPEValue
  pitchbend :: MPEValue
  pressure :: MPEValue
  timbre :: MPEValue
  noteOffVelocity :: MPEValue
  keyState :: KeyState

text \<open>
  The part of \<^verbatim>\<open>MPESynthesiserVoice\<close> that the engine writes directly:
  \<^verbatim>\<open>currentlyPlayingNote\<close> and the unsigned 32-bit \<^verbatim>\<open>noteOnTime\<close>. Whatever else a voice
  subclass keeps (envelopes, oscillators) lives in the extension of the record.
\<close>

record MPESynthesiserVoice =
  currentlyPlayingNote :: MPENote
  noteOnTime :: "32 word"

type_synonym 's Voice = "'s MPESynthesiserVoice_scheme"

text \<open>
  The members that \<^verbatim>\<open>juce_MPESynthesiser.cpp\<close> calls and that are defined outside it:
  \<^verbatim>\<open>MPENote::isValid\<close>, the queries \<^verbatim>\<open>isActive\<close>, \<^verbatim>\<open>isPlayingButReleased\<close> and
  \<^verbatim>\<open>isCurrentlyPlayingNote\<close> of a voice, and the hooks a voice subclass implements
  (\<^verbatim>\<open>noteStarted\<close>, \<^verbatim>\<open>noteStopped\<close>, \<^verbatim>\<open>notePressureChanged\<close>, ...). They are parameters
  of every engine function, so that a theorem below holds for every voice
  implementation. A hook acts on the voice it is called on.
\<close>

record 's Interface =
  isValid :: "MPENote \<Rightarrow> bool"
  isActive :: "'s Voice \<Rightarrow> bool"
  isPlayingButReleased :: "'s Voice \<Rightarrow> bool"
  isCurrentlyPlayingNote :: "'s Voice \<Rightarrow> MPENote \<Rightarrow> bool"
  voiceNoteStarted :: "'s Voice \<Rightarrow> 's Voice"
  voiceNoteStopped :: "bool \<Rightarrow> 's Voice \<Rightarrow> 's Voice"
  voiceNotePressureChanged :: "'s Voice \<Rightarrow> 's Voice"
  voiceNotePitchbendChanged :: "'s Voice \<Rightarrow> 's Voice"
  voiceNoteTimbreChanged :: "'s Voice \<Rightarrow> 's Voice"
  voiceNoteKeyStateChanged :: "'s Voice \<Rightarrow> 's Voice"

text \<open>
  The engine: the pool, the activation counter \<^verbatim>\<open>lastNoteOnCounter\<close> (unsigned 32-bit,
  so \<open>+ 1\<close> wraps), the stealing switch, and the notes the upstream \<^verbatim>\<open>MPEInstrument\<close>
  is tracking.
\<close>

record 's MPESynthesiser =
  voices :: "'s Voice list"
  lastNoteOnCounter :: "32 word"
  shouldStealVoices :: bool
  instrument :: "MPENote list"

subsection \<open>The allocator\<close>

text \<open>
  \<^verbatim>\<open>std::sort\<close> with the comparator \<^verbatim>\<open>a->noteOnTime < b->noteOnTime\<close>. The standard fixes
  the result up to the order of elements with equal keys; \<open>isSort\<close> is that contract,
  and \<open>stdSort\<close> one sort that meets it.
\<close>

definition isSort :: "((nat \<Rightarrow> 32 word) \<Rightarrow> nat list \<Rightarrow> nat list) \<Rightarrow> bool" where
  "isSort srt = (\<forall>f xs. mset (srt f xs) = mset xs \<and> sorted (map f (srt f xs)))"

definition stdSort :: "(nat \<Rightarrow> 32 word) \<Rightarrow> nat list \<Rightarrow> nat list" where
  "stdSort = sort_key"

text \<open>
  One iteration of the first loop of \<^verbatim>\<open>findVoiceToSteal\<close> (lines 207-232), on the voice
  at index \<open>i\<close>: the voice is appended to \<^verbatim>\<open>usableVoicesToStealArray\<close>, the array is
  sorted again, and an unreleased voice replaces \<^verbatim>\<open>low\<close> (\<^verbatim>\<open>top\<close>) when there is none yet
  or its note is strictly lower (higher).
\<close>

definition scanVoice ::
  "((nat \<Rightarrow> 32 word) \<Rightarrow> nat list \<Rightarrow> nat list) \<Rightarrow> 's Interface \<Rightarrow> 's Voice list \<Rightarrow> nat \<Rightarrow>
   nat list \<times> nat option \<times> nat option \<Rightarrow> nat list \<times> nat option \<times> nat option" where
  "scanVoice srt vi vs i st =
     (case st of (usable, low, topmost) \<Rightarrow>
        let usable' = srt (\<lambda>j. noteOnTime (vs ! j)) (usable @ [i]) in
        if \<not> isPlayingButReleased vi (vs ! i) then
          let noteNumber = initialNote (currentlyPlayingNote (vs ! i));
              low' = (case low of
                        None \<Rightarrow> Some i
                      | Some l \<Rightarrow>
                          if noteNumber < initialNote (currentlyPlayingNote (vs ! l))
                          then Some i else low);
              topmost' = (case topmost of
                        None \<Rightarrow> Some i
                      | Some t \<Rightarrow>
                          if noteNumber > initialNote (currentlyPlayingNote (vs ! t))
                          then Some i else topmost)
          in (usable', low', topmost')
        else (usable', low, topmost))"

definition scanVoices ::
  "((nat \<Rightarrow> 32 word) \<Rightarrow> nat list \<Rightarrow> nat list) \<Rightarrow> 's Interface \<Rightarrow> 's Voice list \<Rightarrow>
   nat list \<times> nat option \<times> nat option" where
  "scanVoices srt vi vs = fold (scanVoice srt vi vs) [0..<length vs] ([], None, None)"

text \<open>
  The state of the three locals when the first loop is over and line 235-236 has run:
  the sorted array, \<^verbatim>\<open>low\<close>, and \<^verbatim>\<open>top\<close> set to \<^verbatim>\<open>nullptr\<close> when it equals \<^verbatim>\<open>low\<close>
  (the local \<^verbatim>\<open>top\<close> is called \<open>topmost\<close>, \<open>top\<close> being a constant of HOL).
\<close>

definition stealCandidates ::
  "((nat \<Rightarrow> 32 word) \<Rightarrow> nat list \<Rightarrow> nat list) \<Rightarrow> 's Interface \<Rightarrow> 's Voice list \<Rightarrow>
   nat list \<times> nat option \<times> nat option" where
  "stealCandidates srt vi vs =
     (case scanVoices srt vi vs of (usable, low, topmost) \<Rightarrow>
        (usable, low, if topmost = low then None else topmost))"

text \<open>
  Lines 238-269: the four search loops over the sorted array, each returning its first
  match (\<open>find\<close>), then the protected voices.
\<close>

definition stealFrom ::
  "'s Interface \<Rightarrow> 's Voice list \<Rightarrow> MPENote \<Rightarrow> nat list \<times> nat option \<times> nat option \<Rightarrow>
   nat option" where
  "stealFrom vi vs noteToStealVoiceFor c =
     (case c of (usable, low, topmost) \<Rightarrow>
       (case (if isValid vi noteToStealVoiceFor
              then find (\<lambda>i. initialNote (currentlyPlayingNote (vs ! i))
                               = initialNote noteToStealVoiceFor) usable
              else None) of
          Some i \<Rightarrow> Some i
        | None \<Rightarrow>
       (case find (\<lambda>i. Some i \<noteq> low \<and> Some i \<noteq> topmost \<and> isPlayingButReleased vi (vs ! i)) usable of
          Some i \<Rightarrow> Some i
        | None \<Rightarrow>
       (case find (\<lambda>i. Some i \<noteq> low \<and> Some i \<noteq> topmost
                        \<and> keyState (currentlyPlayingNote (vs ! i)) \<noteq> keyDown
                        \<and> keyState (currentlyPlayingNote (vs ! i)) \<noteq> keyDownAndSustained) usable of
          Some i \<Rightarrow> Some i
        | None \<Rightarrow>
       (case find (\<lambda>i. Some i \<noteq> low \<and> Some i \<noteq> topmost) usable of
          Some i \<Rightarrow> Some i
        | None \<Rightarrow> (if topmost \<noteq> None then topmost else low))))))"

definition findVoiceToStealWith ::
  "((nat \<Rightarrow> 32 word) \<Rightarrow> nat list \<Rightarrow> nat list) \<Rightarrow> 's Interface \<Rightarrow> 's Voice list \<Rightarrow> MPENote \<Rightarrow>
   nat option" where
  "findVoiceToStealWith srt vi vs noteToStealVoiceFor =
     stealFrom vi vs noteToStealVoiceFor (stealCandidates srt vi vs)"

definition findVoiceToSteal :: "'s Interface \<Rightarrow> 's Voice list \<Rightarrow> MPENote \<Rightarrow> nat option" where
  "findVoiceToSteal = findVoiceToStealWith stdSort"

text \<open>Lines 169-183: the first idle voice in pool order, else the stealing heuristic.\<close>

definition findFreeVoice ::
  "'s Interface \<Rightarrow> 's Voice list \<Rightarrow> MPENote \<Rightarrow> bool \<Rightarrow> nat option" where
  "findFreeVoice vi vs noteToFindVoiceFor stealIfNoneAvailable =
     (case find (\<lambda>i. \<not> isActive vi (vs ! i)) [0..<length vs] of
        Some i \<Rightarrow> Some i
      | None \<Rightarrow>
          if stealIfNoneAvailable then findVoiceToSteal vi vs noteToFindVoiceFor else None)"

subsection \<open>Starting notes\<close>

text \<open>
  Lines 52-59. \<^verbatim>\<open>voice->noteOnTime = lastNoteOnCounter++\<close> stamps the value the counter
  has before the increment; the start hook runs on the stamped voice.
\<close>

definition startVoice ::
  "'s Interface \<Rightarrow> nat \<Rightarrow> MPENote \<Rightarrow> 's MPESynthesiser \<Rightarrow> 's MPESynthesiser" where
  "startVoice vi voice noteToStart st =
     st\<lparr>voices := (voices st)
            [voice := voiceNoteStarted vi
               ((voices st ! voice)\<lparr>currentlyPlayingNote := noteToStart,
                                    noteOnTime := lastNoteOnCounter st\<rparr>)],
        lastNoteOnCounter := lastNoteOnCounter st + 1\<rparr>"

text \<open>Lines 70-76. Without a voice the note is dropped and nothing is returned.\<close>

definition noteAdded :: "'s Interface \<Rightarrow> MPENote \<Rightarrow> 's MPESynthesiser \<Rightarrow> 's MPESynthesiser" where
  "noteAdded vi newNote st =
     (case findFreeVoice vi (voices st) newNote (shouldStealVoices st) of
        Some voice \<Rightarrow> startVoice vi voice newNote st
      | None \<Rightarrow> st)"

text \<open>The engine after the first \<open>k\<close> of a sequence of note-starts.\<close>

definition afterStarts ::
  "'s Interface \<Rightarrow> MPENote list \<Rightarrow> 's MPESynthesiser \<Rightarrow> nat \<Rightarrow> 's MPESynthesiser" where
  "afterStarts vi notes st k = fold (noteAdded vi) (take k notes) st"

subsection \<open>Per-note control changes\<close>

text \<open>
  Lines 78-132. The four handlers run the same loop over the pool and differ in the
  hook they call: a voice that is playing the changed note receives the new snapshot
  and then the hook.
\<close>

primrec updatePlaying ::
  "'s Interface \<Rightarrow> ('s Voice \<Rightarrow> 's Voice) \<Rightarrow> MPENote \<Rightarrow> 's Voice list \<Rightarrow> 's Voice list" where
  "updatePlaying vi hook changedNote [] = []"
| "updatePlaying vi hook changedNote (voice # rest) =
     (if isCurrentlyPlayingNote vi voice changedNote
      then hook (voice\<lparr>currentlyPlayingNote := changedNote\<rparr>)
      else voice) # updatePlaying vi hook changedNote rest"

definition notePressureChanged ::
  "'s Interface \<Rightarrow> MPENote \<Rightarrow> 's MPESynthesiser \<Rightarrow> 's MPESynthesiser" where
  "notePressureChanged vi changedNote st =
     st\<lparr>voices := updatePlaying vi (voiceNotePressureChanged vi) changedNote (voices st)\<rparr>"

definition notePitchbendChanged ::
  "'s Interface \<Rightarrow> MPENote \<Rightarrow> 's MPESynthesiser \<Rightarrow> 's MPESynthesiser" where
  "notePitchbendChanged vi changedNote st =
     st\<lparr>voices := updatePlaying vi (voiceNotePitchbendChanged vi) changedNote (voices st)\<rparr>"

definition noteTimbreChanged ::
  "'s Interface \<Rightarrow> MPENote \<Rightarrow> 's MPESynthesiser \<Rightarrow> 's MPESynthesiser" where
  "noteTimbreChanged vi changedNote st =
     st\<lparr>voices := updatePlaying vi (voiceNoteTimbreChanged vi) changedNote (voices st)\<rparr>"

definition noteKeyStateChanged ::
  "'s Interface \<Rightarrow> MPENote \<Rightarrow> 's MPESynthesiser \<Rightarrow> 's MPESynthesiser" where
  "noteKeyStateChanged vi changedNote st =
     st\<lparr>voices := updatePlaying vi (voiceNoteKeyStateChanged vi) changedNote (voices st)\<rparr>"

subsection \<open>All voices off\<close>

text \<open>
  Lines 328-334, for one voice: the note-off velocity and the key state are overwritten
  in place, every other field of the note stays, and the stop hook runs.
\<close>

definition offSnapshot :: "'s Voice \<Rightarrow> 's Voice" where
  "offSnapshot voice =
     voice\<lparr>currentlyPlayingNote :=
       (currentlyPlayingNote voice)\<lparr>noteOffVelocity := from7BitInt 64, keyState := off\<rparr>\<rparr>"

definition turnOffVoice :: "'s Interface \<Rightarrow> bool \<Rightarrow> 's Voice \<Rightarrow> 's Voice" where
  "turnOffVoice vi allowTailOff voice = voiceNoteStopped vi allowTailOff (offSnapshot voice)"

text \<open>
  Modelled from the spec: \<^verbatim>\<open>MPEInstrument::releaseAllNotes\<close>, which is not part of this
  file. The upstream note-producer releases all notes it is tracking: it tracks none
  afterwards.
\<close>

definition releaseAllNotes :: "MPENote list \<Rightarrow> MPENote list" where
  "releaseAllNotes notes = []"

definition turnOffAllVoices ::
  "'s Interface \<Rightarrow> bool \<Rightarrow> 's MPESynthesiser \<Rightarrow> 's MPESynthesiser" where
  "turnOffAllVoices vi allowTailOff st =
     st\<lparr>voices := map (turnOffVoice vi allowTailOff) (voices st),
        instrument := releaseAllNotes (instrument st)\<rparr>"

subsection \<open>Shrinking the pool\<close>

text \<open>
  Modelled from the spec: the default-constructed \<^verbatim>\<open>MPENote\<close> that \<^verbatim>\<open>reduceNumVoices\<close>
  passes as \<^verbatim>\<open>{}\<close>, the "none" of \<^verbatim>\<open>chooseVoiceToSteal(noteOrNone)\<close>: a note on no
  channel, with its key off.
\<close>

definition MPENote_default :: MPENote where
  "MPENote_default =
     \<lparr>noteID = 0, midiChannel = 0, initialNote = 0, noteOnVelocity = from7BitInt 0,
      pitchbend = from7BitInt 64, pressure = from7BitInt 64, timbre = from7BitInt 64,
      noteOffVelocity = from7BitInt 0, keyState = off\<rparr>"

text \<open>\<^verbatim>\<open>voices.removeObject (voice)\<close> and \<^verbatim>\<open>voices.remove (0)\<close>; out of range nothing is removed.\<close>

definition removeAt :: "nat \<Rightarrow> 'a list \<Rightarrow> 'a list" where
  "removeAt i xs = take i xs @ drop (Suc i) xs"

text \<open>
  Lines 305-319. The loop need not end (a negative target on an empty pool keeps it
  running), so not returning is \<open>None\<close>. The second component counts how often the
  last-resort branch of line 317 ran.
\<close>

partial_function (option) reduceLoop ::
  "'s Interface \<Rightarrow> int \<Rightarrow> 's Voice list \<Rightarrow> nat \<Rightarrow> ('s Voice list \<times> nat) option" where
  "reduceLoop vi newNumVoices vs killed =
     (if int (length vs) > newNumVoices then
        (case findFreeVoice vi vs MPENote_default True of
           Some voice \<Rightarrow> reduceLoop vi newNumVoices (removeAt voice vs) killed
         | None \<Rightarrow> reduceLoop vi newNumVoices (removeAt 0 vs) (Suc killed))
      else Some (vs, killed))"

declare reduceLoop.simps [code]

definition reduceNumVoices ::
  "'s Interface \<Rightarrow> int \<Rightarrow> 's Voice list \<Rightarrow> ('s Voice list \<times> nat) option" where
  "reduceNumVoices vi newNumVoices vs = reduceLoop vi newNumVoices vs 0"

subsection \<open>A concrete voice\<close>

text \<open>
  Modelled from the spec: the library's own \<^verbatim>\<open>MPENote::isValid\<close> and voice queries,
  which are not part of this file, and a small voice to run the engine on. A note
  is given when a channel (1 to 16) carries it; a voice is active from its start until it
  is fully silenced, that is while it holds such a note; it is released when it is
  active with the key up and no sustain; it is playing a note when it is active and
  holds a note of that identity. The stop hook silences the voice at once by clearing
  its note, unless a tail-off is allowed, where the voice goes on sounding.
\<close>

definition noteIsValid :: "MPENote \<Rightarrow> bool" where
  "noteIsValid n = (0 < midiChannel n \<and> midiChannel n \<le> 16)"

definition plainVoice :: "unit Interface" where
  "plainVoice =
     \<lparr>isValid = noteIsValid,
      isActive = (\<lambda>v. noteIsValid (currentlyPlayingNote v)),
      isPlayingButReleased =
        (\<lambda>v. noteIsValid (currentlyPlayingNote v) \<and> keyState (currentlyPlayingNote v) = off),
      isCurrentlyPlayingNote =
        (\<lambda>v n. noteIsValid (currentlyPlayingNote v) \<and> noteID (currentlyPlayingNote v) = noteID n),
      voiceNoteStarted = (\<lambda>v. v),
      voiceNoteStopped =
        (\<lambda>allowTailOff v. if allowTailOff then v else v\<lparr>currentlyPlayingNote := MPENote_default\<rparr>),
      voiceNotePressureChanged = (\<lambda>v. v),
      voiceNotePitchbendChanged = (\<lambda>v. v),
      voiceNoteTimbreChanged = (\<lambda>v. v),
      voiceNoteKeyStateChanged = (\<lambda>v. v)\<rparr>"

text \<open>A note on channel 2 with the given pitch and key state, and a voice holding it.\<close>

definition mkNote :: "8 word \<Rightarrow> KeyState \<Rightarrow> MPENote" where
  "mkNote pitch ks =
     MPENote_default\<lparr>noteID := 256 + ucast pitch, midiChannel := 2, initialNote := pitch,
                     keyState := ks\<rparr>"

definition mkVoice :: "8 word \<Rightarrow> KeyState \<Rightarrow> 32 word \<Rightarrow> MPESynthesiserVoice" where
  "mkVoice pitch ks t = \<lparr>currentlyPlayingNote = mkNote pitch ks, noteOnTime = t\<rparr>"

definition idleVoice :: MPESynthesiserVoice where
  "idleVoice = \<lparr>currentlyPlayingNote = MPENote_default, noteOnTime = 0\<rparr>"

section \<open>Properties\<close>

subsection \<open>The sort and the scan of the pool\<close>

lemma isSort_stdSort: "isSort stdSort"
  by (simp add: isSort_def stdSort_def)

lemma isSort_set: "isSort srt \<Longrightarrow> set (srt f xs) = set xs"
  unfolding isSort_def by (metis set_mset_mset)

lemma isSort_sorted: "isSort srt \<Longrightarrow> sorted (map f (srt f xs))"
  unfolding isSort_def by blast

lemma fst_scanVoice:
  "fst (scanVoice srt vi vs i (u, l, t)) = srt (\<lambda>j. noteOnTime (vs ! j)) (u @ [i])"
  by (simp add: scanVoice_def Let_def)

lemma snd_scanVoice:
  "snd (scanVoice srt vi vs i (u, c)) = snd (scanVoice srt' vi vs i (u', c))"
  by (cases c) (simp add: scanVoice_def Let_def)

lemma snd_fold_scanVoice:
  "snd (fold (scanVoice srt vi vs) is (u, c)) = snd (fold (scanVoice srt' vi vs) is (u', c))"
proof (induction "is" arbitrary: u u' c)
  case Nil
  then show ?case by simp
next
  case (Cons i "is")
  obtain a b where ab: "scanVoice srt vi vs i (u, c) = (a, b)" by (cases "scanVoice srt vi vs i (u, c)")
  obtain a' b' where ab': "scanVoice srt' vi vs i (u', c) = (a', b')" by (cases "scanVoice srt' vi vs i (u', c)")
  have "b = b'" using snd_scanVoice [of srt vi vs i u c srt' u'] ab ab' by simp
  then show ?case using Cons.IH [of a b a'] ab ab' by simp
qed

lemma set_fold_scanVoice:
  assumes "isSort srt"
  shows "set (fst (fold (scanVoice srt vi vs) is (u, c))) = set u \<union> set is"
proof (induction "is" arbitrary: u c)
  case Nil
  then show ?case by simp
next
  case (Cons i "is")
  obtain a b where ab: "scanVoice srt vi vs i (u, c) = (a, b)" by (cases "scanVoice srt vi vs i (u, c)")
  have "a = srt (\<lambda>j. noteOnTime (vs ! j)) (u @ [i])"
    using fst_scanVoice [of srt vi vs i u "fst c" "snd c"] ab by simp
  then have "set a = set u \<union> {i}" using isSort_set [OF assms] by simp
  then show ?case using Cons.IH [of a b] ab by auto
qed

lemma mset_fold_scanVoice:
  assumes "isSort srt"
  shows "mset (fst (fold (scanVoice srt vi vs) is (u, c))) = mset u + mset is"
proof (induction "is" arbitrary: u c)
  case Nil
  then show ?case by simp
next
  case (Cons i "is")
  obtain a b where ab: "scanVoice srt vi vs i (u, c) = (a, b)" by (cases "scanVoice srt vi vs i (u, c)")
  have "a = srt (\<lambda>j. noteOnTime (vs ! j)) (u @ [i])"
    using fst_scanVoice [of srt vi vs i u "fst c" "snd c"] ab by simp
  then have "mset a = mset u + {#i#}" using assms by (simp add: isSort_def)
  then show ?case using Cons.IH [of a b] ab by simp
qed

lemma sorted_fold_scanVoice:
  assumes "isSort srt" and "sorted (map (\<lambda>j. noteOnTime (vs ! j)) u)"
  shows "sorted (map (\<lambda>j. noteOnTime (vs ! j)) (fst (fold (scanVoice srt vi vs) is (u, c))))"
  using assms(2)
proof (induction "is" arbitrary: u c)
  case Nil
  then show ?case by simp
next
  case (Cons i "is")
  obtain a b where ab: "scanVoice srt vi vs i (u, c) = (a, b)" by (cases "scanVoice srt vi vs i (u, c)")
  have "a = srt (\<lambda>j. noteOnTime (vs ! j)) (u @ [i])"
    using fst_scanVoice [of srt vi vs i u "fst c" "snd c"] ab by simp
  then have "sorted (map (\<lambda>j. noteOnTime (vs ! j)) a)" using isSort_sorted [OF assms(1)] by simp
  then show ?case using Cons.IH [of a b] ab by simp
qed

lemma scan_protected:
  "fold (scanVoice srt vi vs) [0..<k] ([], None, None) = (u, low, tp) \<Longrightarrow>
   (case low of
      None \<Rightarrow> (\<forall>j<k. isPlayingButReleased vi (vs ! j)) \<and> tp = None
    | Some l \<Rightarrow>
        l < k \<and> \<not> isPlayingButReleased vi (vs ! l) \<and>
        (\<forall>j<k. \<not> isPlayingButReleased vi (vs ! j) \<longrightarrow>
           initialNote (currentlyPlayingNote (vs ! l)) \<le> initialNote (currentlyPlayingNote (vs ! j))) \<and>
        (\<exists>t. tp = Some t \<and> t < k \<and> \<not> isPlayingButReleased vi (vs ! t) \<and>
           (\<forall>j<k. \<not> isPlayingButReleased vi (vs ! j) \<longrightarrow>
              initialNote (currentlyPlayingNote (vs ! j)) \<le> initialNote (currentlyPlayingNote (vs ! t)))))"
proof (induction k arbitrary: u low tp)
  case 0
  then show ?case by simp
next
  case (Suc k)
  obtain u0 low0 tp0 where s0: "fold (scanVoice srt vi vs) [0..<k] ([], None, None) = (u0, low0, tp0)"
    by (cases "fold (scanVoice srt vi vs) [0..<k] ([], None, None)")
  note ih = Suc.IH [OF s0]
  have step: "scanVoice srt vi vs k (u0, low0, tp0) = (u, low, tp)"
    using Suc.prems s0 by simp
  show ?case
    using ih step
    by (auto simp: scanVoice_def Let_def less_Suc_eq split: option.splits if_splits)
       (meson order.trans less_imp_le not_le_imp_less order.strict_implies_order)+
qed

lemma scanVoices_usable:
  assumes "isSort srt" and "scanVoices srt vi vs = (u, low, tp)"
  shows "set u = {0..<length vs}"
    and "sorted (map (\<lambda>j. noteOnTime (vs ! j)) u)"
proof -
  have u: "u = fst (fold (scanVoice srt vi vs) [0..<length vs] ([], None, None))"
    using assms(2) by (simp add: scanVoices_def)
  show "set u = {0..<length vs}"
    unfolding u using set_fold_scanVoice [OF assms(1), of vi vs "[0..<length vs]" "[]"] by simp
  show "sorted (map (\<lambda>j. noteOnTime (vs ! j)) u)"
    unfolding u using sorted_fold_scanVoice [OF assms(1), of vs "[]" vi] by simp
qed

lemma stealCandidates_usable:
  assumes "isSort srt" and "stealCandidates srt vi vs = (u, low, tp)"
  shows "set u = {0..<length vs}"
    and "sorted (map (\<lambda>j. noteOnTime (vs ! j)) u)"
proof -
  obtain u0 low0 tp0 where s: "scanVoices srt vi vs = (u0, low0, tp0)"
    by (cases "scanVoices srt vi vs")
  then have "u = u0" using assms(2) by (simp add: stealCandidates_def)
  then show "set u = {0..<length vs}" and "sorted (map (\<lambda>j. noteOnTime (vs ! j)) u)"
    using scanVoices_usable [OF assms(1) s] by simp_all
qed

lemma stealCandidates_protected:
  assumes "stealCandidates srt vi vs = (u, low, tp)"
  shows "case low of
           None \<Rightarrow> (\<forall>j<length vs. isPlayingButReleased vi (vs ! j)) \<and> tp = None
         | Some l \<Rightarrow> l < length vs \<and> tp \<noteq> low \<and> (\<forall>t. tp = Some t \<longrightarrow> t < length vs)"
proof -
  obtain u0 low0 tp0 where s: "scanVoices srt vi vs = (u0, low0, tp0)"
    by (cases "scanVoices srt vi vs")
  have eq: "low = low0 \<and> tp = (if tp0 = low0 then None else tp0)"
    using assms s by (auto simp: stealCandidates_def)
  show ?thesis
    using scan_protected [of srt vi vs "length vs" u0 low0 tp0] s eq
    by (auto simp: scanVoices_def split: option.splits)
qed

lemma stealCandidates_extremes:
  assumes "stealCandidates srt vi vs = (u, low, tp)"
  shows "case low of
           None \<Rightarrow> (\<forall>j<length vs. isPlayingButReleased vi (vs ! j)) \<and> tp = None
         | Some l \<Rightarrow>
             l < length vs \<and> \<not> isPlayingButReleased vi (vs ! l) \<and>
             (\<forall>j<length vs. \<not> isPlayingButReleased vi (vs ! j) \<longrightarrow>
                initialNote (currentlyPlayingNote (vs ! l))
                  \<le> initialNote (currentlyPlayingNote (vs ! j))) \<and>
             (case tp of
                None \<Rightarrow>
                  (\<forall>j<length vs. \<not> isPlayingButReleased vi (vs ! j) \<longrightarrow>
                     initialNote (currentlyPlayingNote (vs ! j))
                       \<le> initialNote (currentlyPlayingNote (vs ! l)))
              | Some t \<Rightarrow>
                  t \<noteq> l \<and> t < length vs \<and> \<not> isPlayingButReleased vi (vs ! t) \<and>
                  (\<forall>j<length vs. \<not> isPlayingButReleased vi (vs ! j) \<longrightarrow>
                     initialNote (currentlyPlayingNote (vs ! j))
                       \<le> initialNote (currentlyPlayingNote (vs ! t))))"
proof -
  obtain u0 low0 tp0 where s: "scanVoices srt vi vs = (u0, low0, tp0)"
    by (cases "scanVoices srt vi vs")
  have eq: "low = low0 \<and> tp = (if tp0 = low0 then None else tp0)"
    using assms s by (auto simp: stealCandidates_def)
  show ?thesis
    using scan_protected [of srt vi vs "length vs" u0 low0 tp0] s eq
    by (auto simp: scanVoices_def split: option.splits)
qed

lemma sorted_permutation_unique:
  assumes "mset xs = mset ys" and "distinct xs" and "inj_on f (set xs)"
    and "sorted (map f xs)" and "sorted (map f ys)"
  shows "xs = ys"
proof -
  have s: "set ys = set xs" using assms(1) by (metis set_mset_mset)
  have d: "distinct ys" using assms(1,2) by (metis mset_eq_imp_distinct_iff)
  have "map f xs = map f ys"
  proof (rule sorted_distinct_set_unique)
    show "sorted (map f xs)" "sorted (map f ys)" using assms(4,5) .
    show "distinct (map f xs)" using assms(2,3) by (simp add: distinct_map)
    show "distinct (map f ys)" using d assms(3) s by (simp add: distinct_map)
    show "set (map f xs) = set (map f ys)" using s by simp
  qed
  moreover have "inj_on f (set xs \<union> set ys)" using assms(3) s by simp
  ultimately show ?thesis by (simp add: inj_on_map_eq_map)
qed

lemma scanVoices_sort_independent:
  assumes "isSort srt" and "distinct (map noteOnTime vs)"
  shows "scanVoices srt vi vs = scanVoices stdSort vi vs"
proof -
  let ?f = "\<lambda>j. noteOnTime (vs ! j)"
  let ?a = "fold (scanVoice srt vi vs) [0..<length vs] ([], None, None)"
  let ?b = "fold (scanVoice stdSort vi vs) [0..<length vs] ([], None, None)"
  have m: "mset (fst ?a) = mset (fst ?b)"
    using mset_fold_scanVoice [OF assms(1), of vi vs "[0..<length vs]" "[]" "(None, None)"]
          mset_fold_scanVoice [OF isSort_stdSort, of vi vs "[0..<length vs]" "[]" "(None, None)"]
    by simp
  have d: "distinct (fst ?a)"
    using mset_fold_scanVoice [OF assms(1), of vi vs "[0..<length vs]" "[]" "(None, None)"]
    by (metis add_cancel_left_left distinct_upt mset.simps(1) mset_eq_imp_distinct_iff)
  have st: "set (fst ?a) = {0..<length vs}"
    using set_fold_scanVoice [OF assms(1), of vi vs "[0..<length vs]" "[]" "(None, None)"] by simp
  have inj: "inj_on ?f (set (fst ?a))"
    unfolding st
  proof (rule inj_onI)
    fix x y
    assume x: "x \<in> {0..<length vs}" and y: "y \<in> {0..<length vs}"
      and e: "noteOnTime (vs ! x) = noteOnTime (vs ! y)"
    have "map noteOnTime vs ! x = map noteOnTime vs ! y" using x y e by simp
    then show "x = y"
      using nth_eq_iff_index_eq [OF assms(2), of x y] x y by simp
  qed
  have "fst ?a = fst ?b"
    using sorted_permutation_unique [OF m d inj]
          sorted_fold_scanVoice [OF assms(1), of vs "[]" vi "[0..<length vs]" "(None, None)"]
          sorted_fold_scanVoice [OF isSort_stdSort, of vs "[]" vi "[0..<length vs]" "(None, None)"]
    by simp
  moreover have "snd ?a = snd ?b"
    using snd_fold_scanVoice [of srt vi vs "[0..<length vs]" "[]" "(None, None)" stdSort "[]"] .
  ultimately show ?thesis by (simp add: scanVoices_def prod_eq_iff)
qed

subsection \<open>The search loops\<close>

lemma find_sorted_least:
  assumes "find P xs = Some x" and "sorted (map f xs)" and "y \<in> set xs" and "P y"
  shows "f x \<le> f y"
  using assms
proof (induction xs)
  case Nil
  then show ?case by simp
next
  case (Cons a xs)
  then show ?case by (auto split: if_splits)
qed

lemma find_SomeD: "find P xs = Some x \<Longrightarrow> x \<in> set xs \<and> P x"
  by (induction xs) (auto split: if_splits)

lemma find_upt_first:
  assumes "i < n" and "P i" and "\<forall>j<i. \<not> P j"
  shows "find P [0..<n] = Some i"
  using assms by (simp add: find_Some_iff) (use assms in auto)

lemma find_upt_Some:
  assumes "find P [0..<n] = Some i"
  shows "i < n \<and> P i \<and> (\<forall>j<i. \<not> P j)"
  using assms by (auto simp: find_Some_iff)

lemma find_upt_None: "find P [0..<n] = None \<longleftrightarrow> (\<forall>i<n. \<not> P i)"
  by (auto simp: find_None_iff)

lemma stealFrom_Some:
  "stealFrom vi vs n (u, low, tp) = Some i \<Longrightarrow> i \<in> set u \<or> Some i = tp \<or> Some i = low"
  by (auto simp: stealFrom_def split: option.splits if_splits dest: find_SomeD)

lemma stealFrom_None:
  "stealFrom vi vs n (u, low, tp) = None \<Longrightarrow>
   find (\<lambda>i. Some i \<noteq> low \<and> Some i \<noteq> tp) u = None \<and> tp = None \<and> low = None"
  by (auto simp: stealFrom_def split: option.splits if_splits)

lemma stealFrom_protected:
  assumes "set u = {0..<length vs}"
    and "\<not> isValid vi n \<or> (\<forall>i<length vs. initialNote (currentlyPlayingNote (vs ! i)) \<noteq> initialNote n)"
    and "\<forall>i<length vs. Some i = low \<or> Some i = tp"
  shows "stealFrom vi vs n (u, low, tp) = (if tp \<noteq> None then tp else low)"
proof -
  have 1: "(if isValid vi n
            then find (\<lambda>i. initialNote (currentlyPlayingNote (vs ! i)) = initialNote n) u
            else None) = None"
    using assms(1,2) by (auto simp: find_None_iff)
  have 2: "find (\<lambda>i. Some i \<noteq> low \<and> Some i \<noteq> tp \<and> isPlayingButReleased vi (vs ! i)) u = None"
    using assms(1,3) by (auto simp: find_None_iff)
  have 3: "find (\<lambda>i. Some i \<noteq> low \<and> Some i \<noteq> tp
                  \<and> keyState (currentlyPlayingNote (vs ! i)) \<noteq> keyDown
                  \<and> keyState (currentlyPlayingNote (vs ! i)) \<noteq> keyDownAndSustained) u = None"
    using assms(1,3) by (auto simp: find_None_iff)
  have 4: "find (\<lambda>i. Some i \<noteq> low \<and> Some i \<noteq> tp) u = None"
    using assms(1,3) by (auto simp: find_None_iff)
  show ?thesis unfolding stealFrom_def prod.case 1 2 3 4 by simp
qed

lemma findVoiceToStealWith_some:
  assumes srt: "isSort srt" and ne: "vs \<noteq> []"
  shows "\<exists>i<length vs. findVoiceToStealWith srt vi vs n = Some i"
proof -
  obtain u low tp where c: "stealCandidates srt vi vs = (u, low, tp)"
    by (cases "stealCandidates srt vi vs")
  note us = stealCandidates_usable(1) [OF srt c]
  note pr = stealCandidates_protected [OF c]
  let ?r = "stealFrom vi vs n (u, low, tp)"
  have zero: "0 \<in> set u" using us ne by simp
  have "?r \<noteq> None"
  proof
    assume "?r = None"
    from stealFrom_None [OF this] zero show False
      by (auto simp: find_None_iff)
  qed
  then obtain i where i: "?r = Some i" by blast
  from stealFrom_Some [OF i] have "i < length vs"
    using us pr by (auto split: option.splits)
  then show ?thesis using i by (simp add: findVoiceToStealWith_def c)
qed

lemma three_indices:
  fixes a b c i :: nat
  assumes "a < 3" "b < 3" "c < 3" "a \<noteq> b" "b \<noteq> c" "a \<noteq> c" "i < 3"
  shows "i = a \<or> i = b \<or> i = c"
  using assms by arith

subsection \<open>Extremal protection\<close>

text \<open>
  C1, as the code has it. In a pool of three unreleased voices with the notes 40, 60
  and 80 (in any pool order and of any age), all keys held down and no voice at the
  pitch of the incoming note, the voices holding 40 and 80 are \<^verbatim>\<open>low\<close> and \<^verbatim>\<open>top\<close>, and
  \<^verbatim>\<open>findVoiceToSteal\<close> returns the voice holding 60, the only one that is not protected.
\<close>

theorem middle_voice_is_stolen:
  assumes len: "length vs = 3"
    and pitches: "(\<lambda>v. initialNote (currentlyPlayingNote v)) ` set vs = {40, 60, 80}"
    and unreleased: "\<forall>v\<in>set vs. \<not> isPlayingButReleased vi v"
    and held: "\<forall>v\<in>set vs. keyState (currentlyPlayingNote v) = keyDown
                          \<or> keyState (currentlyPlayingNote v) = keyDownAndSustained"
    and nomatch: "initialNote n \<notin> {40, 60, 80}"
  shows "\<exists>i<length vs. findVoiceToSteal vi vs n = Some i
           \<and> initialNote (currentlyPlayingNote (vs ! i)) = 60"
proof -
  let ?N = "\<lambda>i. initialNote (currentlyPlayingNote (vs ! i))"
  obtain u low tp where c: "stealCandidates stdSort vi vs = (u, low, tp)"
    by (cases "stealCandidates stdSort vi vs")
  note us = stealCandidates_usable(1) [OF isSort_stdSort c]
  note ex = stealCandidates_extremes [OF c]
  have "40 \<in> (\<lambda>v. initialNote (currentlyPlayingNote v)) ` set vs" using pitches by simp
  then obtain a where a: "a < 3" "?N a = 40" using len by (auto simp: in_set_conv_nth)
  have "60 \<in> (\<lambda>v. initialNote (currentlyPlayingNote v)) ` set vs" using pitches by simp
  then obtain b where b: "b < 3" "?N b = 60" using len by (auto simp: in_set_conv_nth)
  have "80 \<in> (\<lambda>v. initialNote (currentlyPlayingNote v)) ` set vs" using pitches by simp
  then obtain d where d: "d < 3" "?N d = 80" using len by (auto simp: in_set_conv_nth)
  have ne: "a \<noteq> b" "b \<noteq> d" "a \<noteq> d" using a b d by auto
  have idx: "\<And>i. i < 3 \<Longrightarrow> i = a \<or> i = b \<or> i = d"
    using three_indices [OF a(1) b(1) d(1) ne] by blast
  have unrel: "\<And>i. i < 3 \<Longrightarrow> \<not> isPlayingButReleased vi (vs ! i)"
    using unreleased len by simp
  have keys: "\<And>i. i < 3 \<Longrightarrow> keyState (currentlyPlayingNote (vs ! i)) = keyDown
                          \<or> keyState (currentlyPlayingNote (vs ! i)) = keyDownAndSustained"
    using held len by simp
  have low: "low = Some a"
  proof (cases low)
    case None
    then show ?thesis using ex unrel [OF a(1)] a(1) len by simp
  next
    case (Some l)
    then have l: "l < 3" "?N l \<le> ?N a" using ex unrel [OF a(1)] a(1) len by auto
    have "l = a"
      using idx [OF l(1)] l(2) a(2) b(2) d(2) by auto
    then show ?thesis using Some by simp
  qed
  have tp: "tp = Some d"
  proof (cases tp)
    case None
    then have "?N d \<le> ?N a" using ex low unrel [OF d(1)] d(1) len by auto
    then show ?thesis using a(2) d(2) by simp
  next
    case (Some t)
    then have t: "t < 3" "?N d \<le> ?N t" using ex low unrel [OF d(1)] d(1) len by auto
    have "t = d"
      using idx [OF t(1)] t(2) a(2) b(2) d(2) by auto
    then show ?thesis using Some by simp
  qed
  have 1: "(if isValid vi n
            then find (\<lambda>i. ?N i = initialNote n) u else None) = None"
  proof -
    have "\<And>i. i < 3 \<Longrightarrow> ?N i \<noteq> initialNote n"
      using idx a(2) b(2) d(2) nomatch by fastforce
    then show ?thesis using us len by (auto simp: find_None_iff)
  qed
  have 2: "find (\<lambda>i. Some i \<noteq> low \<and> Some i \<noteq> tp \<and> isPlayingButReleased vi (vs ! i)) u = None"
    using us len unrel by (auto simp: find_None_iff)
  have 3: "find (\<lambda>i. Some i \<noteq> low \<and> Some i \<noteq> tp
                  \<and> keyState (currentlyPlayingNote (vs ! i)) \<noteq> keyDown
                  \<and> keyState (currentlyPlayingNote (vs ! i)) \<noteq> keyDownAndSustained) u = None"
    using us len keys by (auto simp: find_None_iff)
  have "b \<in> set u" using us len b(1) by simp
  then have "find (\<lambda>i. Some i \<noteq> low \<and> Some i \<noteq> tp) u \<noteq> None"
    using low tp ne by (auto simp: find_None_iff)
  then obtain i where i: "find (\<lambda>i. Some i \<noteq> low \<and> Some i \<noteq> tp) u = Some i" by blast
  from find_SomeD [OF i] have "i < 3" "i \<noteq> a" "i \<noteq> d" using us len low tp by auto
  then have "i = b" using idx by blast
  moreover have "findVoiceToSteal vi vs n = Some i"
    unfolding findVoiceToSteal_def findVoiceToStealWith_def c stealFrom_def prod.case 1 2 3 i
    by simp
  ultimately show ?thesis using b len by simp
qed

theorem middle_voice_is_stolen_witness:
  "length [mkVoice 40 keyDown 2, mkVoice 60 keyDown 3, mkVoice 80 keyDown 4] = 3
   \<and> (\<lambda>v. initialNote (currentlyPlayingNote v))
        ` set [mkVoice 40 keyDown 2, mkVoice 60 keyDown 3, mkVoice 80 keyDown 4] = {40, 60, 80}
   \<and> \<not> isPlayingButReleased plainVoice (mkVoice 40 keyDown 2)
   \<and> \<not> isPlayingButReleased plainVoice (mkVoice 60 keyDown 3)
   \<and> \<not> isPlayingButReleased plainVoice (mkVoice 80 keyDown 4)
   \<and> initialNote (mkNote 50 keyDown) \<notin> {40, 60, 80}
   \<and> findVoiceToSteal plainVoice [mkVoice 40 keyDown 2, mkVoice 60 keyDown 3, mkVoice 80 keyDown 4]
        (mkNote 50 keyDown) = Some 1"
proof -
  let ?vs = "[mkVoice 40 keyDown 2, mkVoice 60 keyDown 3, mkVoice 80 keyDown 4]"
  have len: "length ?vs = 3" by simp
  have pitches: "(\<lambda>v. initialNote (currentlyPlayingNote v)) ` set ?vs = {40, 60, 80}"
    by (simp add: mkVoice_def mkNote_def)
  have u0: "\<not> isPlayingButReleased plainVoice (mkVoice 40 keyDown 2)"
    by (simp add: plainVoice_def mkVoice_def mkNote_def)
  have u1: "\<not> isPlayingButReleased plainVoice (mkVoice 60 keyDown 3)"
    by (simp add: plainVoice_def mkVoice_def mkNote_def)
  have u2: "\<not> isPlayingButReleased plainVoice (mkVoice 80 keyDown 4)"
    by (simp add: plainVoice_def mkVoice_def mkNote_def)
  have unreleased: "\<forall>v\<in>set ?vs. \<not> isPlayingButReleased plainVoice v"
    using u0 u1 u2 by simp
  have held: "\<forall>v\<in>set ?vs. keyState (currentlyPlayingNote v) = keyDown
                          \<or> keyState (currentlyPlayingNote v) = keyDownAndSustained"
    by (simp add: mkVoice_def mkNote_def)
  have nomatch: "initialNote (mkNote 50 keyDown) \<notin> {40, 60, 80}"
    by (simp add: mkNote_def)
  from middle_voice_is_stolen [OF len pitches unreleased held nomatch]
  obtain i where i: "i < length ?vs" "findVoiceToSteal plainVoice ?vs (mkNote 50 keyDown) = Some i"
    "initialNote (currentlyPlayingNote (?vs ! i)) = 60" by blast
  have "i = 1"
  proof -
    from i(1) have "i = 0 \<or> i = 1 \<or> i = 2" by auto
    moreover have "i \<noteq> 0"
    proof
      assume "i = 0"
      with i(3) show False by (simp add: mkVoice_def mkNote_def)
    qed
    moreover have "i \<noteq> 2"
    proof
      assume "i = 2"
      with i(3) show False by (simp add: mkVoice_def mkNote_def)
    qed
    ultimately show ?thesis by blast
  qed
  then show ?thesis using len pitches u0 u1 u2 nomatch i(2) by simp
qed

text \<open>
  C1, as it is stated, fails: with the voices holding 40, 60 and 80 at the indices 0, 1
  and 2 and an incoming note 50, the voice returned is the one at index 1, which holds
  60, and not the one at index 2, which holds 80.
\<close>

theorem top_voice_not_stolen_counterexample:
  "findVoiceToSteal plainVoice [mkVoice 40 keyDown 2, mkVoice 60 keyDown 3, mkVoice 80 keyDown 4]
     (mkNote 50 keyDown) = Some 1
   \<and> initialNote (currentlyPlayingNote
        ([mkVoice 40 keyDown 2, mkVoice 60 keyDown 3, mkVoice 80 keyDown 4] ! 1)) = 60
   \<and> initialNote (currentlyPlayingNote
        ([mkVoice 40 keyDown 2, mkVoice 60 keyDown 3, mkVoice 80 keyDown 4] ! 2)) = 80
   \<and> findVoiceToSteal plainVoice [mkVoice 40 keyDown 2, mkVoice 60 keyDown 3, mkVoice 80 keyDown 4]
     (mkNote 50 keyDown) \<noteq> Some 2"
proof -
  have "findVoiceToSteal plainVoice [mkVoice 40 keyDown 2, mkVoice 60 keyDown 3, mkVoice 80 keyDown 4]
     (mkNote 50 keyDown) = Some 1"
    by code_simp
  then show ?thesis by (simp add: mkVoice_def mkNote_def)
qed

subsection \<open>Same-pitch preference\<close>

text \<open>
  C2. When the incoming note is valid and some voice of the pool sounds the same
  \<^verbatim>\<open>initialNote\<close>, \<^verbatim>\<open>findVoiceToSteal\<close> returns a voice of that pitch whose \<^verbatim>\<open>noteOnTime\<close>
  is the lowest among the voices of that pitch. Nothing is assumed about which voices
  are released, held or protected: the same-pitch rule comes before every other rule.
\<close>

theorem same_pitch_oldest_first:
  assumes "isValid vi n"
    and "\<exists>j<length vs. initialNote (currentlyPlayingNote (vs ! j)) = initialNote n"
  shows "\<exists>i<length vs. findVoiceToSteal vi vs n = Some i
           \<and> initialNote (currentlyPlayingNote (vs ! i)) = initialNote n
           \<and> (\<forall>j<length vs. initialNote (currentlyPlayingNote (vs ! j)) = initialNote n
                 \<longrightarrow> noteOnTime (vs ! i) \<le> noteOnTime (vs ! j))"
proof -
  obtain u low tp where c: "stealCandidates stdSort vi vs = (u, low, tp)"
    by (cases "stealCandidates stdSort vi vs")
  note us = stealCandidates_usable [OF isSort_stdSort c]
  let ?P = "\<lambda>i. initialNote (currentlyPlayingNote (vs ! i)) = initialNote n"
  from assms(2) obtain j where j: "j < length vs" "?P j" by blast
  then have "j \<in> set u" using us(1) by simp
  then have "find ?P u \<noteq> None" using j(2) by (auto simp: find_None_iff)
  then obtain i where i: "find ?P u = Some i" by blast
  have r: "findVoiceToSteal vi vs n = Some i"
    using i assms(1) by (simp add: findVoiceToSteal_def findVoiceToStealWith_def c stealFrom_def)
  have iP: "i \<in> set u \<and> ?P i" using find_SomeD [OF i] .
  have "\<forall>k<length vs. ?P k \<longrightarrow> noteOnTime (vs ! i) \<le> noteOnTime (vs ! k)"
  proof (intro allI impI)
    fix k assume k: "k < length vs" "?P k"
    then have "k \<in> set u" using us(1) by simp
    from find_sorted_least [OF i us(2) this k(2)]
    show "noteOnTime (vs ! i) \<le> noteOnTime (vs ! k)" .
  qed
  then show ?thesis using r iP us(1) by auto
qed

theorem same_pitch_oldest_first_witness:
  "isValid plainVoice (mkNote 60 keyDown)
   \<and> initialNote (currentlyPlayingNote ([mkVoice 60 keyDown 7, mkVoice 60 keyDown 3, mkVoice 61 off 2] ! 0))
       = initialNote (mkNote 60 keyDown)
   \<and> isPlayingButReleased plainVoice ([mkVoice 60 keyDown 7, mkVoice 60 keyDown 3, mkVoice 61 off 2] ! 2)
   \<and> findVoiceToSteal plainVoice [mkVoice 60 keyDown 7, mkVoice 60 keyDown 3, mkVoice 61 off 2]
        (mkNote 60 keyDown) = Some 1"
proof -
  let ?vs = "[mkVoice 60 keyDown 7, mkVoice 60 keyDown 3, mkVoice 61 off 2]"
  have v: "isValid plainVoice (mkNote 60 keyDown)"
    by (simp add: plainVoice_def noteIsValid_def mkNote_def)
  have m: "initialNote (currentlyPlayingNote (?vs ! 0)) = initialNote (mkNote 60 keyDown)"
    by (simp add: mkVoice_def)
  have rel: "isPlayingButReleased plainVoice (?vs ! 2)"
    by (simp add: plainVoice_def noteIsValid_def mkVoice_def mkNote_def)
  have ex: "\<exists>j<length ?vs. initialNote (currentlyPlayingNote (?vs ! j)) = initialNote (mkNote 60 keyDown)"
    using m by (intro exI [of _ 0]) simp
  from same_pitch_oldest_first [OF v ex]
  obtain i where i: "i < length ?vs" "findVoiceToSteal plainVoice ?vs (mkNote 60 keyDown) = Some i"
    "initialNote (currentlyPlayingNote (?vs ! i)) = initialNote (mkNote 60 keyDown)"
    "\<forall>j<length ?vs. initialNote (currentlyPlayingNote (?vs ! j)) = initialNote (mkNote 60 keyDown)
                 \<longrightarrow> noteOnTime (?vs ! i) \<le> noteOnTime (?vs ! j)"
    by blast
  have "i = 1"
  proof -
    from i(1) have "i = 0 \<or> i = 1 \<or> i = 2" by auto
    moreover have "i \<noteq> 2"
    proof
      assume "i = 2"
      with i(3) show False by (simp add: mkVoice_def mkNote_def)
    qed
    moreover have "i \<noteq> 0"
    proof
      assume "i = 0"
      with i(4) [rule_format, of 1] show False by (simp add: mkVoice_def mkNote_def)
    qed
    ultimately show ?thesis by blast
  qed
  then show ?thesis using v m rel i(2) by simp
qed

subsection \<open>Stealing determinism\<close>

text \<open>
  C3. \<^verbatim>\<open>findVoiceToSteal\<close> is a function of the pool and the note. The one freedom the
  code leaves is the order in which \<^verbatim>\<open>std::sort\<close> puts voices of equal \<^verbatim>\<open>noteOnTime\<close>:
  when the \<^verbatim>\<open>noteOnTime\<close> values of the pool are pairwise distinct, every sort that meets
  the contract of \<^verbatim>\<open>std::sort\<close> gives the same candidates and the same voice. On a
  non-empty pool that voice exists, and it is not equal to both \<^verbatim>\<open>low\<close> and \<^verbatim>\<open>top\<close>, taken
  as they stand when the function returns (after line 236).
\<close>

theorem stealing_is_deterministic:
  assumes "isSort srt" and "vs \<noteq> []" and "distinct (map noteOnTime vs)"
    and "stealCandidates stdSort vi vs = (u, low, tp)"
  shows "stealCandidates srt vi vs = (u, low, tp)
         \<and> findVoiceToStealWith srt vi vs n = findVoiceToSteal vi vs n
         \<and> findVoiceToSteal vi vs n \<noteq> None
         \<and> \<not> (findVoiceToSteal vi vs n = low \<and> findVoiceToSteal vi vs n = tp)"
proof -
  have c: "stealCandidates srt vi vs = stealCandidates stdSort vi vs"
    using scanVoices_sort_independent [OF assms(1,3)] by (simp add: stealCandidates_def)
  have r: "findVoiceToStealWith srt vi vs n = findVoiceToSteal vi vs n"
    using c by (simp add: findVoiceToSteal_def findVoiceToStealWith_def)
  have some: "findVoiceToSteal vi vs n \<noteq> None"
    using findVoiceToStealWith_some [OF isSort_stdSort assms(2), of vi n]
    by (auto simp: findVoiceToSteal_def)
  have "tp = None \<or> tp \<noteq> low"
    using stealCandidates_extremes [OF assms(4)] by (auto split: option.splits)
  then have "\<not> (findVoiceToSteal vi vs n = low \<and> findVoiceToSteal vi vs n = tp)"
    using some by auto
  then show ?thesis using c r some assms(4) by simp
qed

theorem stealing_is_deterministic_witness:
  "isSort (\<lambda>f xs. sort_key f (rev xs))
   \<and> [mkVoice 40 keyDown 4, mkVoice 60 keyDown 2, mkVoice 80 keyDown 3] \<noteq> []
   \<and> distinct (map noteOnTime [mkVoice 40 keyDown 4, mkVoice 60 keyDown 2, mkVoice 80 keyDown 3])
   \<and> stealCandidates stdSort plainVoice
        [mkVoice 40 keyDown 4, mkVoice 60 keyDown 2, mkVoice 80 keyDown 3] = ([1, 2, 0], Some 0, Some 2)
   \<and> findVoiceToStealWith (\<lambda>f xs. sort_key f (rev xs)) plainVoice
        [mkVoice 40 keyDown 4, mkVoice 60 keyDown 2, mkVoice 80 keyDown 3] (mkNote 50 keyDown)
      = findVoiceToSteal plainVoice
        [mkVoice 40 keyDown 4, mkVoice 60 keyDown 2, mkVoice 80 keyDown 3] (mkNote 50 keyDown)
   \<and> findVoiceToSteal plainVoice
        [mkVoice 40 keyDown 4, mkVoice 60 keyDown 2, mkVoice 80 keyDown 3] (mkNote 50 keyDown) \<noteq> Some 0
   \<and> findVoiceToSteal plainVoice
        [mkVoice 40 keyDown 4, mkVoice 60 keyDown 2, mkVoice 80 keyDown 3] (mkNote 50 keyDown) \<noteq> Some 2"
proof -
  let ?vs = "[mkVoice 40 keyDown 4, mkVoice 60 keyDown 2, mkVoice 80 keyDown 3]"
  have s: "isSort (\<lambda>f xs. sort_key f (rev xs))" by (simp add: isSort_def)
  have ne: "?vs \<noteq> []" by simp
  have d: "distinct (map noteOnTime ?vs)" by (simp add: mkVoice_def)
  have c: "stealCandidates stdSort plainVoice ?vs = ([1, 2, 0], Some 0, Some 2)" by code_simp
  have r: "findVoiceToSteal plainVoice ?vs (mkNote 50 keyDown) = Some 1" by code_simp
  show ?thesis
    using stealing_is_deterministic [OF s ne d c, of "mkNote 50 keyDown"] s d c r by simp
qed

subsection \<open>Free voices and dropped notes\<close>

lemma findFreeVoice_idle:
  assumes "i < length vs" and "\<not> isActive vi (vs ! i)" and "\<forall>j<i. isActive vi (vs ! j)"
  shows "findFreeVoice vi vs n steal = Some i"
  using find_upt_first [of i "length vs" "\<lambda>i. \<not> isActive vi (vs ! i)"] assms
  by (simp add: findFreeVoice_def)

lemma findFreeVoice_full:
  assumes "\<forall>i<length vs. isActive vi (vs ! i)"
  shows "findFreeVoice vi vs n steal = (if steal then findVoiceToSteal vi vs n else None)"
  using assms find_upt_None [of "\<lambda>i. \<not> isActive vi (vs ! i)" "length vs"]
  by (simp add: findFreeVoice_def)

lemma first_idle_exists:
  assumes "\<exists>i<length vs. \<not> isActive vi (vs ! i)"
  shows "\<exists>i<length vs. \<not> isActive vi (vs ! i) \<and> (\<forall>j<i. isActive vi (vs ! j))"
proof -
  let ?P = "\<lambda>i. i < length vs \<and> \<not> isActive vi (vs ! i)"
  from assms have ex: "\<exists>i. ?P i" by blast
  have "?P (LEAST i. ?P i)" using ex by (rule LeastI_ex)
  moreover have "\<forall>j<(LEAST i. ?P i). isActive vi (vs ! j)"
  proof (intro allI impI)
    fix j assume j: "j < (LEAST i. ?P i)"
    then have "\<not> ?P j" using not_less_Least by blast
    moreover have "j < length vs" using j \<open>?P (LEAST i. ?P i)\<close> by simp
    ultimately show "isActive vi (vs ! j)" by simp
  qed
  ultimately show ?thesis by blast
qed

lemma afterStarts_Suc:
  assumes "k < length notes"
  shows "afterStarts vi notes st (Suc k) = noteAdded vi (notes ! k) (afterStarts vi notes st k)"
  using assms by (simp add: afterStarts_def take_Suc_conv_app_nth)

lemma noteAdded_idle:
  assumes "\<exists>i<length (voices st). \<not> isActive vi (voices st ! i)"
  shows "\<exists>i<length (voices st). \<not> isActive vi (voices st ! i)
            \<and> (\<forall>j<i. isActive vi (voices st ! j))
            \<and> noteAdded vi n st = startVoice vi i n st"
proof -
  from first_idle_exists [OF assms] obtain i where
    i: "i < length (voices st)" "\<not> isActive vi (voices st ! i)" "\<forall>j<i. isActive vi (voices st ! j)"
    by blast
  have "noteAdded vi n st = startVoice vi i n st"
    using findFreeVoice_idle [OF i] by (simp add: noteAdded_def)
  then show ?thesis using i by blast
qed



text \<open>
  C5. When every voice is active and stealing is disabled, \<^verbatim>\<open>noteAdded\<close> returns the
  engine as it was: the pool, the counter and everything else. The handler has no
  result besides the state, so there is no error value it could give.
\<close>

theorem noteAdded_drops_note:
  assumes "\<forall>i<length (voices st). isActive vi (voices st ! i)"
    and "\<not> shouldStealVoices st"
  shows "noteAdded vi n st = st"
  using findFreeVoice_full [OF assms(1), of n "shouldStealVoices st"] assms(2)
  by (simp add: noteAdded_def)

theorem noteAdded_drops_note_witness:
  "isActive plainVoice ([mkVoice 60 keyDown 2, mkVoice 62 keyDown 3] ! 0)
   \<and> isActive plainVoice ([mkVoice 60 keyDown 2, mkVoice 62 keyDown 3] ! 1)
   \<and> noteAdded plainVoice (mkNote 64 keyDown)
        \<lparr>voices = [mkVoice 60 keyDown 2, mkVoice 62 keyDown 3], lastNoteOnCounter = 4,
         shouldStealVoices = False, instrument = []\<rparr>
      = \<lparr>voices = [mkVoice 60 keyDown 2, mkVoice 62 keyDown 3], lastNoteOnCounter = 4,
         shouldStealVoices = False, instrument = []\<rparr>"
proof -
  let ?st = "\<lparr>voices = [mkVoice 60 keyDown 2, mkVoice 62 keyDown 3], lastNoteOnCounter = 4,
         shouldStealVoices = False, instrument = []\<rparr> :: unit MPESynthesiser"
  have a0: "isActive plainVoice ([mkVoice 60 keyDown 2, mkVoice 62 keyDown 3] ! 0)"
    by (simp add: plainVoice_def noteIsValid_def mkVoice_def mkNote_def)
  have a1: "isActive plainVoice ([mkVoice 60 keyDown 2, mkVoice 62 keyDown 3] ! 1)"
    by (simp add: plainVoice_def noteIsValid_def mkVoice_def mkNote_def)
  have all: "\<forall>i<length (voices ?st). isActive plainVoice (voices ?st ! i)"
    using a0 a1 by (simp add: less_Suc_eq)
  have ns: "\<not> shouldStealVoices ?st" by simp
  show ?thesis using noteAdded_drops_note [OF all ns, of "mkNote 64 keyDown"] a0 a1 by simp
qed

subsection \<open>Protected voices\<close>

text \<open>
  C6. With \<open>(u0, low0, tp0)\<close> the locals after the first loop and \<open>(u, low, tp)\<close> the
  locals after line 236: \<^verbatim>\<open>low\<close> is never changed by line 236; when \<^verbatim>\<open>top\<close> equals \<^verbatim>\<open>low\<close>
  it is cleared; a \<^verbatim>\<open>top\<close> that is left differs from \<^verbatim>\<open>low\<close>. When no same-pitch voice
  is returned first and every voice of the pool is \<^verbatim>\<open>low\<close> or \<^verbatim>\<open>top\<close>, the function
  returns \<^verbatim>\<open>top\<close> if there is one and \<^verbatim>\<open>low\<close> otherwise, and on a non-empty pool that
  is a voice.
\<close>

theorem protected_voices_top_before_low:
  assumes "scanVoices stdSort vi vs = (u0, low0, tp0)"
    and "stealCandidates stdSort vi vs = (u, low, tp)"
  shows "low = low0
         \<and> (tp0 = low0 \<longrightarrow> tp = None)
         \<and> (tp \<noteq> None \<longrightarrow> tp = tp0 \<and> tp \<noteq> low)
         \<and> ((\<not> isValid vi n \<or>
              (\<forall>i<length vs. initialNote (currentlyPlayingNote (vs ! i)) \<noteq> initialNote n))
             \<and> (\<forall>i<length vs. Some i = low \<or> Some i = tp)
            \<longrightarrow> findVoiceToSteal vi vs n = (if tp \<noteq> None then tp else low)
                \<and> (vs \<noteq> [] \<longrightarrow> findVoiceToSteal vi vs n \<noteq> None))"
proof -
  have eq: "low = low0 \<and> tp = (if tp0 = low0 then None else tp0)"
    using assms by (auto simp: stealCandidates_def)
  have r: "findVoiceToSteal vi vs n = stealFrom vi vs n (u, low, tp)"
    using assms(2) by (simp add: findVoiceToSteal_def findVoiceToStealWith_def)
  have some: "vs \<noteq> [] \<longrightarrow> findVoiceToSteal vi vs n \<noteq> None"
    using findVoiceToStealWith_some [OF isSort_stdSort, of vs vi n]
    by (auto simp: findVoiceToSteal_def)
  show ?thesis
    using eq r some stealFrom_protected [OF stealCandidates_usable(1) [OF isSort_stdSort assms(2)], of vi n]
    by auto
qed

theorem protected_voices_top_before_low_witness:
  "scanVoices stdSort plainVoice [mkVoice 40 keyDown 2, mkVoice 80 keyDown 3] = ([0, 1], Some 0, Some 1)
   \<and> stealCandidates stdSort plainVoice [mkVoice 40 keyDown 2, mkVoice 80 keyDown 3] = ([0, 1], Some 0, Some 1)
   \<and> initialNote (currentlyPlayingNote ([mkVoice 40 keyDown 2, mkVoice 80 keyDown 3] ! 0)) \<noteq> initialNote (mkNote 50 keyDown)
   \<and> initialNote (currentlyPlayingNote ([mkVoice 40 keyDown 2, mkVoice 80 keyDown 3] ! 1)) \<noteq> initialNote (mkNote 50 keyDown)
   \<and> findVoiceToSteal plainVoice [mkVoice 40 keyDown 2, mkVoice 80 keyDown 3] (mkNote 50 keyDown) = Some 1
   \<and> scanVoices stdSort plainVoice [mkVoice 60 keyDown 5] = ([0], Some 0, Some 0)
   \<and> stealCandidates stdSort plainVoice [mkVoice 60 keyDown 5] = ([0], Some 0, None)
   \<and> findVoiceToSteal plainVoice [mkVoice 60 keyDown 5] MPENote_default = Some 0"
proof -
  let ?duo = "[mkVoice 40 keyDown 2, mkVoice 80 keyDown 3]"
  let ?mono = "[mkVoice 60 keyDown 5]"
  have s2: "scanVoices stdSort plainVoice ?duo = ([0, 1], Some 0, Some 1)" by code_simp
  have c2: "stealCandidates stdSort plainVoice ?duo = ([0, 1], Some 0, Some 1)" by code_simp
  have n0: "initialNote (currentlyPlayingNote (?duo ! 0)) \<noteq> initialNote (mkNote 50 keyDown)"
    by (simp add: mkVoice_def mkNote_def)
  have n1: "initialNote (currentlyPlayingNote (?duo ! 1)) \<noteq> initialNote (mkNote 50 keyDown)"
    by (simp add: mkVoice_def mkNote_def)
  have h2: "(\<forall>i<length ?duo. initialNote (currentlyPlayingNote (?duo ! i)) \<noteq> initialNote (mkNote 50 keyDown))"
    using n0 n1 by (simp add: less_Suc_eq)
  have p2: "\<forall>i<length ?duo. Some i = Some 0 \<or> Some i = Some (1::nat)"
    by (auto simp: less_Suc_eq)
  have r2: "findVoiceToSteal plainVoice ?duo (mkNote 50 keyDown) = Some 1"
    using protected_voices_top_before_low [OF s2 c2, of "mkNote 50 keyDown"] h2 p2 by simp
  have s1: "scanVoices stdSort plainVoice ?mono = ([0], Some 0, Some 0)" by code_simp
  have c1: "stealCandidates stdSort plainVoice ?mono = ([0], Some 0, None)" by code_simp
  have v1: "\<not> isValid plainVoice MPENote_default"
    by (simp add: plainVoice_def noteIsValid_def MPENote_default_def)
  have r1: "findVoiceToSteal plainVoice ?mono MPENote_default = Some 0"
    using protected_voices_top_before_low [OF s1 c1, of MPENote_default] v1 by simp
  show ?thesis using s2 c2 n0 n1 r2 s1 c1 r1 by simp
qed

subsection \<open>All voices off\<close>

lemma nth_turnOffAllVoices:
  "i < length (voices st) \<Longrightarrow>
   voices (turnOffAllVoices vi b st) ! i =
     voiceNoteStopped vi b
       ((voices st ! i)\<lparr>currentlyPlayingNote :=
          (currentlyPlayingNote (voices st ! i))
            \<lparr>noteOffVelocity := from7BitInt 64, keyState := off\<rparr>\<rparr>)"
  by (simp add: turnOffAllVoices_def turnOffVoice_def offSnapshot_def)

lemma length_turnOffAllVoices:
  "length (voices (turnOffAllVoices vi b st)) = length (voices st)"
  by (simp add: turnOffAllVoices_def)

lemma keyState_turnOffAllVoices:
  assumes keep: "\<forall>v. keyState (currentlyPlayingNote v) = off
                   \<longrightarrow> keyState (currentlyPlayingNote (voiceNoteStopped vi b v)) = off"
    and i: "i < length (voices st)"
  shows "keyState (currentlyPlayingNote (voices (turnOffAllVoices vi b st) ! i)) = off"
proof -
  let ?snapshot = "(voices st ! i)\<lparr>currentlyPlayingNote :=
          (currentlyPlayingNote (voices st ! i))
            \<lparr>noteOffVelocity := from7BitInt 64, keyState := off\<rparr>\<rparr>"
  have "keyState (currentlyPlayingNote ?snapshot) = off" by simp
  then have "keyState (currentlyPlayingNote (voiceNoteStopped vi b ?snapshot)) = off"
    using keep by blast
  then show ?thesis using nth_turnOffAllVoices [OF i, of vi b] by simp
qed

text \<open>
  C7, as the code has it. On each of two calls of \<^verbatim>\<open>turnOffAllVoices\<close> in a row, the stop
  hook of every voice receives the voice's own note with only the note-off velocity and
  the key state overwritten (the key state with \<^verbatim>\<open>off\<close>), so that the engine writes no
  note identity into any voice; the pool keeps its size, the counter and the stealing
  switch stay, and after each call the instrument tracks no note. If the stop hook
  leaves an off key state off, the pool is in the same observable state after each
  call: every voice's key state is off. Whether a voice is active after a call is left
  to its stop hook.
\<close>

theorem all_voices_off_twice:
  "length (voices (turnOffAllVoices vi b st)) = length (voices st)
   \<and> length (voices (turnOffAllVoices vi b (turnOffAllVoices vi b st))) = length (voices st)
   \<and> (\<forall>i<length (voices st).
         voices (turnOffAllVoices vi b st) ! i =
           voiceNoteStopped vi b
             ((voices st ! i)\<lparr>currentlyPlayingNote :=
                (currentlyPlayingNote (voices st ! i))
                  \<lparr>noteOffVelocity := from7BitInt 64, keyState := off\<rparr>\<rparr>)
         \<and> voices (turnOffAllVoices vi b (turnOffAllVoices vi b st)) ! i =
           voiceNoteStopped vi b
             ((voices (turnOffAllVoices vi b st) ! i)\<lparr>currentlyPlayingNote :=
                (currentlyPlayingNote (voices (turnOffAllVoices vi b st) ! i))
                  \<lparr>noteOffVelocity := from7BitInt 64, keyState := off\<rparr>\<rparr>))
   \<and> instrument (turnOffAllVoices vi b st) = []
   \<and> instrument (turnOffAllVoices vi b (turnOffAllVoices vi b st)) = []
   \<and> lastNoteOnCounter (turnOffAllVoices vi b (turnOffAllVoices vi b st)) = lastNoteOnCounter st
   \<and> shouldStealVoices (turnOffAllVoices vi b (turnOffAllVoices vi b st)) = shouldStealVoices st
   \<and> ((\<forall>v. keyState (currentlyPlayingNote v) = off
              \<longrightarrow> keyState (currentlyPlayingNote (voiceNoteStopped vi b v)) = off)
        \<longrightarrow> (\<forall>i<length (voices st).
               keyState (currentlyPlayingNote (voices (turnOffAllVoices vi b st) ! i)) = off
               \<and> keyState (currentlyPlayingNote
                    (voices (turnOffAllVoices vi b (turnOffAllVoices vi b st)) ! i)) = off)
            \<and> map (\<lambda>v. keyState (currentlyPlayingNote v))
                  (voices (turnOffAllVoices vi b (turnOffAllVoices vi b st)))
                = map (\<lambda>v. keyState (currentlyPlayingNote v))
                    (voices (turnOffAllVoices vi b st)))"
proof -
  let ?s1 = "turnOffAllVoices vi b st"
  let ?s2 = "turnOffAllVoices vi b ?s1"
  have l1: "length (voices ?s1) = length (voices st)"
    by (rule length_turnOffAllVoices)
  have l2: "length (voices ?s2) = length (voices st)"
    using length_turnOffAllVoices [of vi b ?s1] l1 by simp
  have hooks: "\<forall>i<length (voices st).
         voices ?s1 ! i =
           voiceNoteStopped vi b
             ((voices st ! i)\<lparr>currentlyPlayingNote :=
                (currentlyPlayingNote (voices st ! i))
                  \<lparr>noteOffVelocity := from7BitInt 64, keyState := off\<rparr>\<rparr>)
         \<and> voices ?s2 ! i =
           voiceNoteStopped vi b
             ((voices ?s1 ! i)\<lparr>currentlyPlayingNote :=
                (currentlyPlayingNote (voices ?s1 ! i))
                  \<lparr>noteOffVelocity := from7BitInt 64, keyState := off\<rparr>\<rparr>)"
  proof (intro allI impI conjI)
    fix i assume i: "i < length (voices st)"
    show "voices ?s1 ! i =
           voiceNoteStopped vi b
             ((voices st ! i)\<lparr>currentlyPlayingNote :=
                (currentlyPlayingNote (voices st ! i))
                  \<lparr>noteOffVelocity := from7BitInt 64, keyState := off\<rparr>\<rparr>)"
      by (rule nth_turnOffAllVoices [OF i])
    have "i < length (voices ?s1)" using i l1 by simp
    then show "voices ?s2 ! i =
           voiceNoteStopped vi b
             ((voices ?s1 ! i)\<lparr>currentlyPlayingNote :=
                (currentlyPlayingNote (voices ?s1 ! i))
                  \<lparr>noteOffVelocity := from7BitInt 64, keyState := off\<rparr>\<rparr>)"
      by (rule nth_turnOffAllVoices)
  qed
  have ins: "instrument ?s1 = [] \<and> instrument ?s2 = []"
    by (simp add: turnOffAllVoices_def releaseAllNotes_def)
  have rest: "lastNoteOnCounter ?s2 = lastNoteOnCounter st
              \<and> shouldStealVoices ?s2 = shouldStealVoices st"
    by (simp add: turnOffAllVoices_def)
  have keys: "(\<forall>v. keyState (currentlyPlayingNote v) = off
              \<longrightarrow> keyState (currentlyPlayingNote (voiceNoteStopped vi b v)) = off)
        \<longrightarrow> (\<forall>i<length (voices st).
               keyState (currentlyPlayingNote (voices ?s1 ! i)) = off
               \<and> keyState (currentlyPlayingNote (voices ?s2 ! i)) = off)
            \<and> map (\<lambda>v. keyState (currentlyPlayingNote v)) (voices ?s2)
                = map (\<lambda>v. keyState (currentlyPlayingNote v)) (voices ?s1)"
  proof
    assume keep: "\<forall>v. keyState (currentlyPlayingNote v) = off
              \<longrightarrow> keyState (currentlyPlayingNote (voiceNoteStopped vi b v)) = off"
    have both: "\<forall>i<length (voices st).
               keyState (currentlyPlayingNote (voices ?s1 ! i)) = off
               \<and> keyState (currentlyPlayingNote (voices ?s2 ! i)) = off"
    proof (intro allI impI conjI)
      fix i assume i: "i < length (voices st)"
      show "keyState (currentlyPlayingNote (voices ?s1 ! i)) = off"
        by (rule keyState_turnOffAllVoices [OF keep i])
      have "i < length (voices ?s1)" using i l1 by simp
      then show "keyState (currentlyPlayingNote (voices ?s2 ! i)) = off"
        by (rule keyState_turnOffAllVoices [OF keep])
    qed
    have same: "map (\<lambda>v. keyState (currentlyPlayingNote v)) (voices ?s2)
                = map (\<lambda>v. keyState (currentlyPlayingNote v)) (voices ?s1)"
      using both l1 l2 by (intro nth_equalityI) simp_all
    show "(\<forall>i<length (voices st).
               keyState (currentlyPlayingNote (voices ?s1 ! i)) = off
               \<and> keyState (currentlyPlayingNote (voices ?s2 ! i)) = off)
            \<and> map (\<lambda>v. keyState (currentlyPlayingNote v)) (voices ?s2)
                = map (\<lambda>v. keyState (currentlyPlayingNote v)) (voices ?s1)"
      using both same by blast
  qed
  show ?thesis using l1 l2 hooks ins rest keys by blast
qed

theorem all_voices_off_twice_witness:
  "keyState (currentlyPlayingNote (voiceNoteStopped plainVoice True (mkVoice 60 off 2))) = off
   \<and> map (\<lambda>v. keyState (currentlyPlayingNote v))
        (voices (turnOffAllVoices plainVoice True
           \<lparr>voices = [mkVoice 60 keyDown 2, mkVoice 62 sustained 3], lastNoteOnCounter = 4,
            shouldStealVoices = False, instrument = [mkNote 60 keyDown, mkNote 62 sustained]\<rparr>))
      = [off, off]
   \<and> map (\<lambda>v. keyState (currentlyPlayingNote v))
        (voices (turnOffAllVoices plainVoice True (turnOffAllVoices plainVoice True
           \<lparr>voices = [mkVoice 60 keyDown 2, mkVoice 62 sustained 3], lastNoteOnCounter = 4,
            shouldStealVoices = False, instrument = [mkNote 60 keyDown, mkNote 62 sustained]\<rparr>)))
      = [off, off]
   \<and> map (\<lambda>v. initialNote (currentlyPlayingNote v))
        (voices (turnOffAllVoices plainVoice True (turnOffAllVoices plainVoice True
           \<lparr>voices = [mkVoice 60 keyDown 2, mkVoice 62 sustained 3], lastNoteOnCounter = 4,
            shouldStealVoices = False, instrument = [mkNote 60 keyDown, mkNote 62 sustained]\<rparr>)))
      = [60, 62]
   \<and> instrument (turnOffAllVoices plainVoice True (turnOffAllVoices plainVoice True
           \<lparr>voices = [mkVoice 60 keyDown 2, mkVoice 62 sustained 3], lastNoteOnCounter = 4,
            shouldStealVoices = False, instrument = [mkNote 60 keyDown, mkNote 62 sustained]\<rparr>))
      = []"
proof -
  let ?st = "\<lparr>voices = [mkVoice 60 keyDown 2, mkVoice 62 sustained 3], lastNoteOnCounter = 4,
       shouldStealVoices = False, instrument = [mkNote 60 keyDown, mkNote 62 sustained]\<rparr>
       :: unit MPESynthesiser"
  let ?s1 = "turnOffAllVoices plainVoice True ?st"
  let ?s2 = "turnOffAllVoices plainVoice True ?s1"
  have keep: "\<forall>v. keyState (currentlyPlayingNote v) = off
                 \<longrightarrow> keyState (currentlyPlayingNote (voiceNoteStopped plainVoice True v)) = off"
    by (simp add: plainVoice_def)
  have k0: "keyState (currentlyPlayingNote (voiceNoteStopped plainVoice True (mkVoice 60 off 2))) = off"
    by (simp add: plainVoice_def mkVoice_def mkNote_def)
  note t = all_voices_off_twice [of plainVoice True ?st]
  from t have l1: "length (voices ?s1) = 2" by simp
  from t have l2: "length (voices ?s2) = 2" by simp
  from t keep have keys: "\<forall>i<length (voices ?st).
               keyState (currentlyPlayingNote (voices ?s1 ! i)) = off
               \<and> keyState (currentlyPlayingNote (voices ?s2 ! i)) = off"
    by blast
  from t have ins: "instrument ?s2 = []" by blast
  have m1: "map (\<lambda>v. keyState (currentlyPlayingNote v)) (voices ?s1) = [off, off]"
  proof (rule nth_equalityI)
    show "length (map (\<lambda>v. keyState (currentlyPlayingNote v)) (voices ?s1)) = length [off, off]"
      using l1 by simp
  next
    fix i assume "i < length (map (\<lambda>v. keyState (currentlyPlayingNote v)) (voices ?s1))"
    then have i: "i < 2" using l1 by simp
    then have "keyState (currentlyPlayingNote (voices ?s1 ! i)) = off" using keys by simp
    moreover have "[off, off] ! i = off" using i by (auto simp: less_Suc_eq numeral_2_eq_2)
    ultimately show "map (\<lambda>v. keyState (currentlyPlayingNote v)) (voices ?s1) ! i = [off, off] ! i"
      using i l1 by simp
  qed
  have m2: "map (\<lambda>v. keyState (currentlyPlayingNote v)) (voices ?s2) = [off, off]"
  proof (rule nth_equalityI)
    show "length (map (\<lambda>v. keyState (currentlyPlayingNote v)) (voices ?s2)) = length [off, off]"
      using l2 by simp
  next
    fix i assume "i < length (map (\<lambda>v. keyState (currentlyPlayingNote v)) (voices ?s2))"
    then have i: "i < 2" using l2 by simp
    then have "keyState (currentlyPlayingNote (voices ?s2 ! i)) = off" using keys by simp
    moreover have "[off, off] ! i = off" using i by (auto simp: less_Suc_eq numeral_2_eq_2)
    ultimately show "map (\<lambda>v. keyState (currentlyPlayingNote v)) (voices ?s2) ! i = [off, off] ! i"
      using i l2 by simp
  qed
  have ids: "map (\<lambda>v. initialNote (currentlyPlayingNote v)) (voices ?s2) = [60, 62]"
    by (simp add: turnOffAllVoices_def turnOffVoice_def offSnapshot_def plainVoice_def
          mkVoice_def mkNote_def)
  show ?thesis using k0 m1 m2 ids ins by simp
qed

text \<open>
  C7, as it is stated, fails. For a voice that tails off, after one call and after two
  calls of \<^verbatim>\<open>turnOffAllVoices (true)\<close> the key state of the voice is off and the voice
  still holds its note, and it is still active. And for a voice whose stop hook holds
  the note on by putting the key state back to \<^verbatim>\<open>sustained\<close>, the key state is not off
  after the call.
\<close>

theorem all_voices_off_still_active_counterexample:
  "isActive plainVoice
     (voices (turnOffAllVoices plainVoice True
        \<lparr>voices = [mkVoice 60 keyDown 2], lastNoteOnCounter = 3, shouldStealVoices = False,
         instrument = [mkNote 60 keyDown]\<rparr>) ! 0)
   \<and> isActive plainVoice
     (voices (turnOffAllVoices plainVoice True (turnOffAllVoices plainVoice True
        \<lparr>voices = [mkVoice 60 keyDown 2], lastNoteOnCounter = 3, shouldStealVoices = False,
         instrument = [mkNote 60 keyDown]\<rparr>)) ! 0)
   \<and> keyState (currentlyPlayingNote
     (voices (turnOffAllVoices plainVoice True (turnOffAllVoices plainVoice True
        \<lparr>voices = [mkVoice 60 keyDown 2], lastNoteOnCounter = 3, shouldStealVoices = False,
         instrument = [mkNote 60 keyDown]\<rparr>)) ! 0)) = off
   \<and> initialNote (currentlyPlayingNote
     (voices (turnOffAllVoices plainVoice True (turnOffAllVoices plainVoice True
        \<lparr>voices = [mkVoice 60 keyDown 2], lastNoteOnCounter = 3, shouldStealVoices = False,
         instrument = [mkNote 60 keyDown]\<rparr>)) ! 0)) = 60
   \<and> keyState (currentlyPlayingNote
     (voices (turnOffAllVoices
        (plainVoice\<lparr>voiceNoteStopped :=
           (\<lambda>allowTailOff v. v\<lparr>currentlyPlayingNote :=
              (currentlyPlayingNote v)\<lparr>keyState := sustained\<rparr>\<rparr>)\<rparr>) True
        \<lparr>voices = [mkVoice 60 keyDown 2], lastNoteOnCounter = 3, shouldStealVoices = False,
         instrument = [mkNote 60 keyDown]\<rparr>) ! 0)) = sustained"
  by (simp add: turnOffAllVoices_def turnOffVoice_def offSnapshot_def releaseAllNotes_def
        plainVoice_def noteIsValid_def mkVoice_def mkNote_def MPENote_default_def)

subsection \<open>Per-note control changes\<close>

lemma length_updatePlaying: "length (updatePlaying vi hook n vs) = length vs"
  by (induction vs) simp_all

lemma nth_updatePlaying:
  "i < length vs \<Longrightarrow>
   updatePlaying vi hook n vs ! i =
     (if isCurrentlyPlayingNote vi (vs ! i) n
      then hook ((vs ! i)\<lparr>currentlyPlayingNote := n\<rparr>) else vs ! i)"
proof (induction vs arbitrary: i)
  case Nil
  then show ?case by simp
next
  case (Cons v vs)
  then show ?case by (cases i) simp_all
qed

text \<open>
  C8. Each of the four control-change handlers keeps the pool's size and order and
  touches nothing but the voices: a voice that is playing the changed note is given
  the new snapshot and then its hook, wherever it stands in the pool and however many
  there are; every other voice is left exactly as it was.
\<close>

theorem control_change_reaches_every_match:
  "(length (voices (notePressureChanged vi n st)) = length (voices st)
    \<and> (\<forall>i<length (voices st).
          voices (notePressureChanged vi n st) ! i =
            (if isCurrentlyPlayingNote vi (voices st ! i) n
             then voiceNotePressureChanged vi ((voices st ! i)\<lparr>currentlyPlayingNote := n\<rparr>)
             else voices st ! i)))
   \<and> (length (voices (notePitchbendChanged vi n st)) = length (voices st)
    \<and> (\<forall>i<length (voices st).
          voices (notePitchbendChanged vi n st) ! i =
            (if isCurrentlyPlayingNote vi (voices st ! i) n
             then voiceNotePitchbendChanged vi ((voices st ! i)\<lparr>currentlyPlayingNote := n\<rparr>)
             else voices st ! i)))
   \<and> (length (voices (noteTimbreChanged vi n st)) = length (voices st)
    \<and> (\<forall>i<length (voices st).
          voices (noteTimbreChanged vi n st) ! i =
            (if isCurrentlyPlayingNote vi (voices st ! i) n
             then voiceNoteTimbreChanged vi ((voices st ! i)\<lparr>currentlyPlayingNote := n\<rparr>)
             else voices st ! i)))
   \<and> (length (voices (noteKeyStateChanged vi n st)) = length (voices st)
    \<and> (\<forall>i<length (voices st).
          voices (noteKeyStateChanged vi n st) ! i =
            (if isCurrentlyPlayingNote vi (voices st ! i) n
             then voiceNoteKeyStateChanged vi ((voices st ! i)\<lparr>currentlyPlayingNote := n\<rparr>)
             else voices st ! i)))
   \<and> lastNoteOnCounter (notePressureChanged vi n st) = lastNoteOnCounter st
   \<and> lastNoteOnCounter (notePitchbendChanged vi n st) = lastNoteOnCounter st
   \<and> lastNoteOnCounter (noteTimbreChanged vi n st) = lastNoteOnCounter st
   \<and> lastNoteOnCounter (noteKeyStateChanged vi n st) = lastNoteOnCounter st"
  by (simp add: notePressureChanged_def notePitchbendChanged_def noteTimbreChanged_def
        noteKeyStateChanged_def length_updatePlaying nth_updatePlaying)

theorem control_change_reaches_every_match_witness:
  "voices (notePressureChanged plainVoice ((mkNote 60 keyDown)\<lparr>pressure := from7BitInt 100\<rparr>)
      \<lparr>voices = [mkVoice 60 keyDown 2, mkVoice 62 keyDown 3, mkVoice 60 keyDown 4],
       lastNoteOnCounter = 5, shouldStealVoices = False, instrument = []\<rparr>)
   = [\<lparr>currentlyPlayingNote = (mkNote 60 keyDown)\<lparr>pressure := from7BitInt 100\<rparr>, noteOnTime = 2\<rparr>,
      mkVoice 62 keyDown 3,
      \<lparr>currentlyPlayingNote = (mkNote 60 keyDown)\<lparr>pressure := from7BitInt 100\<rparr>, noteOnTime = 4\<rparr>]"
proof -
  let ?n = "(mkNote 60 keyDown)\<lparr>pressure := from7BitInt 100\<rparr>"
  let ?st = "\<lparr>voices = [mkVoice 60 keyDown 2, mkVoice 62 keyDown 3, mkVoice 60 keyDown 4],
       lastNoteOnCounter = 5, shouldStealVoices = False, instrument = []\<rparr> :: unit MPESynthesiser"
  note t = control_change_reaches_every_match [of plainVoice ?n ?st, THEN conjunct1]
  have len: "length (voices (notePressureChanged plainVoice ?n ?st)) = 3"
    using t [THEN conjunct1] by simp
  have v0: "voices (notePressureChanged plainVoice ?n ?st) ! 0
              = \<lparr>currentlyPlayingNote = ?n, noteOnTime = 2\<rparr>"
    using t [THEN conjunct2, rule_format, of 0]
    by (simp add: plainVoice_def noteIsValid_def mkVoice_def mkNote_def)
  have v1: "voices (notePressureChanged plainVoice ?n ?st) ! 1 = mkVoice 62 keyDown 3"
    using t [THEN conjunct2, rule_format, of 1]
    by (simp add: plainVoice_def noteIsValid_def mkVoice_def mkNote_def)
  have v2: "voices (notePressureChanged plainVoice ?n ?st) ! 2
              = \<lparr>currentlyPlayingNote = ?n, noteOnTime = 4\<rparr>"
    using t [THEN conjunct2, rule_format, of 2]
    by (simp add: plainVoice_def noteIsValid_def mkVoice_def mkNote_def)
  show ?thesis
  proof (rule nth_equalityI)
    show "length (voices (notePressureChanged plainVoice ?n ?st))
          = length [\<lparr>currentlyPlayingNote = ?n, noteOnTime = 2\<rparr>, mkVoice 62 keyDown 3,
                    \<lparr>currentlyPlayingNote = ?n, noteOnTime = 4\<rparr>]"
      using len by simp
  next
    fix i assume "i < length (voices (notePressureChanged plainVoice ?n ?st))"
    then have "i = 0 \<or> i = 1 \<or> i = 2" using len by auto
    then show "voices (notePressureChanged plainVoice ?n ?st) ! i
          = [\<lparr>currentlyPlayingNote = ?n, noteOnTime = 2\<rparr>, mkVoice 62 keyDown 3,
                    \<lparr>currentlyPlayingNote = ?n, noteOnTime = 4\<rparr>] ! i"
      using v0 v1 v2 by auto
  qed
qed

subsection \<open>Activation order\<close>

lemma unat_counter_add:
  fixes c :: "32 word"
  assumes "unat c + k < 2 ^ 32"
  shows "unat (c + of_nat k) = unat c + k"
  using assms
  by (simp add: unat_word_ariths unat_of_nat take_bit_nat_eq_self)

lemma counter_afterStarts:
  assumes "\<forall>j<k. \<exists>i<length (voices (afterStarts vi notes st j)).
              \<not> isActive vi (voices (afterStarts vi notes st j) ! i)"
    and "k \<le> length notes"
  shows "lastNoteOnCounter (afterStarts vi notes st k) = lastNoteOnCounter st + of_nat k"
  using assms
proof (induction k)
  case 0
  then show ?case by (simp add: afterStarts_def)
next
  case (Suc k)
  have k: "k < length notes" using Suc.prems(2) by simp
  have idle: "\<exists>i<length (voices (afterStarts vi notes st k)).
              \<not> isActive vi (voices (afterStarts vi notes st k) ! i)"
    using Suc.prems(1) by simp
  from noteAdded_idle [OF idle, of "notes ! k"] obtain i where
    "noteAdded vi (notes ! k) (afterStarts vi notes st k)
       = startVoice vi i (notes ! k) (afterStarts vi notes st k)"
    by blast
  then have "lastNoteOnCounter (afterStarts vi notes st (Suc k))
             = lastNoteOnCounter (afterStarts vi notes st k) + 1"
    using afterStarts_Suc [OF k, of vi st] by (simp add: startVoice_def)
  then show ?case using Suc.IH Suc.prems k by simp
qed

text \<open>
  C9, as the code has it. In a sequence of note-starts that each find an idle voice,
  the start number \<open>k\<close> writes the note and the current counter value into the idle
  voice of lowest index, runs its start hook and adds one to the counter. The values
  stamped are strictly increasing in start order as long as the 32-bit counter does
  not wrap within the sequence.
\<close>

theorem activation_order_increasing:
  assumes idle: "\<forall>k<length ns. \<exists>i<length (voices (afterStarts vi ns st k)).
                   \<not> isActive vi (voices (afterStarts vi ns st k) ! i)"
    and nowrap: "unat (lastNoteOnCounter st) + length ns \<le> 2 ^ 32"
  shows "(\<forall>k<length ns.
            \<exists>i<length (voices (afterStarts vi ns st k)).
              \<not> isActive vi (voices (afterStarts vi ns st k) ! i)
              \<and> voices (afterStarts vi ns st (Suc k))
                  = (voices (afterStarts vi ns st k))
                      [i := voiceNoteStarted vi
                         ((voices (afterStarts vi ns st k) ! i)
                            \<lparr>currentlyPlayingNote := ns ! k,
                             noteOnTime := lastNoteOnCounter (afterStarts vi ns st k)\<rparr>)]
              \<and> lastNoteOnCounter (afterStarts vi ns st (Suc k))
                  = lastNoteOnCounter (afterStarts vi ns st k) + 1)
         \<and> (\<forall>j k. j < k \<and> k < length ns
               \<longrightarrow> lastNoteOnCounter (afterStarts vi ns st j)
                     < lastNoteOnCounter (afterStarts vi ns st k))"
proof (intro conjI allI impI)
  fix k assume k: "k < length ns"
  from idle k have "\<exists>i<length (voices (afterStarts vi ns st k)).
                   \<not> isActive vi (voices (afterStarts vi ns st k) ! i)" by blast
  from noteAdded_idle [OF this, of "ns ! k"] obtain i where
    i: "i < length (voices (afterStarts vi ns st k))"
       "\<not> isActive vi (voices (afterStarts vi ns st k) ! i)"
       "noteAdded vi (ns ! k) (afterStarts vi ns st k)
          = startVoice vi i (ns ! k) (afterStarts vi ns st k)"
    by blast
  have "afterStarts vi ns st (Suc k) = startVoice vi i (ns ! k) (afterStarts vi ns st k)"
    using afterStarts_Suc [OF k, of vi st] i(3) by simp
  then show "\<exists>i<length (voices (afterStarts vi ns st k)).
              \<not> isActive vi (voices (afterStarts vi ns st k) ! i)
              \<and> voices (afterStarts vi ns st (Suc k))
                  = (voices (afterStarts vi ns st k))
                      [i := voiceNoteStarted vi
                         ((voices (afterStarts vi ns st k) ! i)
                            \<lparr>currentlyPlayingNote := ns ! k,
                             noteOnTime := lastNoteOnCounter (afterStarts vi ns st k)\<rparr>)]
              \<and> lastNoteOnCounter (afterStarts vi ns st (Suc k))
                  = lastNoteOnCounter (afterStarts vi ns st k) + 1"
    using i(1,2) by (auto simp: startVoice_def)
next
  fix j k assume jk: "j < k \<and> k < length ns"
  have cj: "lastNoteOnCounter (afterStarts vi ns st j) = lastNoteOnCounter st + of_nat j"
    using counter_afterStarts [of j vi ns st] idle jk by simp
  have ck: "lastNoteOnCounter (afterStarts vi ns st k) = lastNoteOnCounter st + of_nat k"
    using counter_afterStarts [of k vi ns st] idle jk by simp
  have "unat (lastNoteOnCounter st + of_nat j) = unat (lastNoteOnCounter st) + j"
    using unat_counter_add [of "lastNoteOnCounter st" j] nowrap jk by simp
  moreover have "unat (lastNoteOnCounter st + of_nat k) = unat (lastNoteOnCounter st) + k"
    using unat_counter_add [of "lastNoteOnCounter st" k] nowrap jk by simp
  ultimately show "lastNoteOnCounter (afterStarts vi ns st j)
                     < lastNoteOnCounter (afterStarts vi ns st k)"
    using jk cj ck by (simp add: word_less_nat_alt)
qed

theorem activation_order_increasing_witness:
  "\<not> isActive plainVoice
       (voices (afterStarts plainVoice [mkNote 60 keyDown, mkNote 62 keyDown]
          \<lparr>voices = [idleVoice, idleVoice], lastNoteOnCounter = 7, shouldStealVoices = False,
           instrument = []\<rparr> 0) ! 0)
   \<and> \<not> isActive plainVoice
       (voices (afterStarts plainVoice [mkNote 60 keyDown, mkNote 62 keyDown]
          \<lparr>voices = [idleVoice, idleVoice], lastNoteOnCounter = 7, shouldStealVoices = False,
           instrument = []\<rparr> 1) ! 1)
   \<and> unat (7 :: 32 word) + length [mkNote 60 keyDown, mkNote 62 keyDown] \<le> 2 ^ 32
   \<and> lastNoteOnCounter (afterStarts plainVoice [mkNote 60 keyDown, mkNote 62 keyDown]
          \<lparr>voices = [idleVoice, idleVoice], lastNoteOnCounter = 7, shouldStealVoices = False,
           instrument = []\<rparr> 0)
       < lastNoteOnCounter (afterStarts plainVoice [mkNote 60 keyDown, mkNote 62 keyDown]
          \<lparr>voices = [idleVoice, idleVoice], lastNoteOnCounter = 7, shouldStealVoices = False,
           instrument = []\<rparr> 1)
   \<and> map noteOnTime (voices (afterStarts plainVoice [mkNote 60 keyDown, mkNote 62 keyDown]
          \<lparr>voices = [idleVoice, idleVoice], lastNoteOnCounter = 7, shouldStealVoices = False,
           instrument = []\<rparr> 2)) = [7, 8]"
proof -
  let ?ns = "[mkNote 60 keyDown, mkNote 62 keyDown]"
  let ?st = "\<lparr>voices = [idleVoice, idleVoice], lastNoteOnCounter = 7, shouldStealVoices = False,
              instrument = []\<rparr> :: unit MPESynthesiser"
  have s0: "voices (afterStarts plainVoice ?ns ?st 0) = [idleVoice, idleVoice]"
    by code_simp
  have s1: "voices (afterStarts plainVoice ?ns ?st 1) = [mkVoice 60 keyDown 7, idleVoice]"
    by code_simp
  have s2: "map noteOnTime (voices (afterStarts plainVoice ?ns ?st 2)) = [7, 8]"
    by code_simp
  have idl: "\<not> isActive plainVoice idleVoice"
    by (simp add: plainVoice_def noteIsValid_def idleVoice_def MPENote_default_def)
  have i0: "\<not> isActive plainVoice (voices (afterStarts plainVoice ?ns ?st 0) ! 0)"
    unfolding s0 using idl by simp
  have i1: "\<not> isActive plainVoice (voices (afterStarts plainVoice ?ns ?st 1) ! 1)"
    unfolding s1 using idl by simp
  have idle: "\<forall>k<length ?ns. \<exists>i<length (voices (afterStarts plainVoice ?ns ?st k)).
                   \<not> isActive plainVoice (voices (afterStarts plainVoice ?ns ?st k) ! i)"
  proof (intro allI impI)
    fix k assume "k < length ?ns"
    then have "k = 0 \<or> k = 1" by auto
    then show "\<exists>i<length (voices (afterStarts plainVoice ?ns ?st k)).
                   \<not> isActive plainVoice (voices (afterStarts plainVoice ?ns ?st k) ! i)"
    proof
      assume "k = 0"
      then show ?thesis using i0 s0 by (intro exI [of _ 0]) simp
    next
      assume "k = 1"
      then show ?thesis using i1 s1 by (intro exI [of _ 1]) simp
    qed
  qed
  have nowrap: "unat (lastNoteOnCounter ?st) + length ?ns \<le> 2 ^ 32" by simp
  have "lastNoteOnCounter (afterStarts plainVoice ?ns ?st 0)
          < lastNoteOnCounter (afterStarts plainVoice ?ns ?st 1)"
    using activation_order_increasing [OF idle nowrap, THEN conjunct2, rule_format, of 0 1]
    by simp
  then show ?thesis using i0 i1 s2 by simp
qed

text \<open>
  C9, as it is stated, fails when the counter wraps. With the counter at its largest
  value, two starts that each find an idle voice, nothing being stolen, stamp
  4294967295 and then 0.
\<close>

theorem activation_order_wraps_counterexample:
  "\<not> isActive plainVoice
       (voices (afterStarts plainVoice [mkNote 60 keyDown, mkNote 62 keyDown]
          \<lparr>voices = [idleVoice, idleVoice], lastNoteOnCounter = 4294967295,
           shouldStealVoices = False, instrument = []\<rparr> 0) ! 0)
   \<and> \<not> isActive plainVoice
       (voices (afterStarts plainVoice [mkNote 60 keyDown, mkNote 62 keyDown]
          \<lparr>voices = [idleVoice, idleVoice], lastNoteOnCounter = 4294967295,
           shouldStealVoices = False, instrument = []\<rparr> 1) ! 1)
   \<and> map noteOnTime (voices (afterStarts plainVoice [mkNote 60 keyDown, mkNote 62 keyDown]
          \<lparr>voices = [idleVoice, idleVoice], lastNoteOnCounter = 4294967295,
           shouldStealVoices = False, instrument = []\<rparr> 2)) = [4294967295, 0]
   \<and> map (\<lambda>v. initialNote (currentlyPlayingNote v))
        (voices (afterStarts plainVoice [mkNote 60 keyDown, mkNote 62 keyDown]
          \<lparr>voices = [idleVoice, idleVoice], lastNoteOnCounter = 4294967295,
           shouldStealVoices = False, instrument = []\<rparr> 2)) = [60, 62]
   \<and> \<not> ((4294967295 :: 32 word) < 0)"
proof -
  let ?ns = "[mkNote 60 keyDown, mkNote 62 keyDown]"
  let ?st = "\<lparr>voices = [idleVoice, idleVoice], lastNoteOnCounter = 4294967295,
              shouldStealVoices = False, instrument = []\<rparr> :: unit MPESynthesiser"
  have s0: "voices (afterStarts plainVoice ?ns ?st 0) = [idleVoice, idleVoice]"
    by code_simp
  have s1: "voices (afterStarts plainVoice ?ns ?st 1) = [mkVoice 60 keyDown 4294967295, idleVoice]"
    by code_simp
  have s2: "map noteOnTime (voices (afterStarts plainVoice ?ns ?st 2)) = [4294967295, 0]"
    by code_simp
  have p2: "map (\<lambda>v. initialNote (currentlyPlayingNote v))
              (voices (afterStarts plainVoice ?ns ?st 2)) = [60, 62]"
    by code_simp
  have idl: "\<not> isActive plainVoice idleVoice"
    by (simp add: plainVoice_def noteIsValid_def idleVoice_def MPENote_default_def)
  have i0: "\<not> isActive plainVoice (voices (afterStarts plainVoice ?ns ?st 0) ! 0)"
    unfolding s0 using idl by simp
  have i1: "\<not> isActive plainVoice (voices (afterStarts plainVoice ?ns ?st 1) ! 1)"
    unfolding s1 using idl by simp
  show ?thesis using i0 i1 s2 p2 by simp
qed

subsection \<open>The heuristic always finds a voice\<close>

lemma findFreeVoice_steal_some:
  assumes "vs \<noteq> []"
  shows "\<exists>i<length vs. findFreeVoice vi vs n True = Some i"
proof (cases "find (\<lambda>i. \<not> isActive vi (vs ! i)) [0..<length vs]")
  case None
  then show ?thesis
    using findVoiceToStealWith_some [OF isSort_stdSort assms, of vi n]
    by (simp add: findFreeVoice_def findVoiceToSteal_def)
next
  case (Some i)
  then have "i < length vs" by (auto dest: find_SomeD)
  then show ?thesis using Some by (simp add: findFreeVoice_def)
qed

lemma length_removeAt: "i < length xs \<Longrightarrow> length (removeAt i xs) = length xs - 1"
  by (simp add: removeAt_def)

lemma reduceLoop_terminates:
  assumes "0 \<le> newNumVoices"
  shows "\<exists>vs'. reduceLoop vi newNumVoices vs killed = Some (vs', killed)
               \<and> int (length vs') = min (int (length vs)) newNumVoices"
proof (induction "length vs" arbitrary: vs)
  case 0
  then show ?case using assms by (subst reduceLoop.simps) simp
next
  case (Suc m)
  show ?case
  proof (cases "int (length vs) > newNumVoices")
    case False
    then show ?thesis by (subst reduceLoop.simps) simp
  next
    case True
    have ne: "vs \<noteq> []" using Suc.hyps(2) by auto
    obtain i where i: "i < length vs" "findFreeVoice vi vs MPENote_default True = Some i"
      using findFreeVoice_steal_some [OF ne] by blast
    have len: "length (removeAt i vs) = m"
      using length_removeAt [OF i(1)] Suc.hyps(2) by simp
    from Suc.hyps(1) [of "removeAt i vs"] len
    obtain vs' where r: "reduceLoop vi newNumVoices (removeAt i vs) killed = Some (vs', killed)"
      "int (length vs') = min (int m) newNumVoices"
      by auto
    have "reduceLoop vi newNumVoices vs killed = Some (vs', killed)"
      by (subst reduceLoop.simps) (simp add: True i(2) r(1))
    moreover have "int (length vs') = min (int (length vs)) newNumVoices"
      using r(2) True Suc.hyps(2) by simp
    ultimately show ?thesis by blast
  qed
qed

text \<open>
  C10. On a non-empty pool the stealing heuristic always returns a voice of the pool,
  whatever the note and whatever the state of the voices; so does \<^verbatim>\<open>findFreeVoice\<close> with
  stealing enabled. Hence \<^verbatim>\<open>reduceNumVoices\<close> with a target that is not negative ends
  with the pool cut down to the target and has never taken the last-resort branch.
\<close>

theorem findVoiceToSteal_returns_voice:
  "(vs \<noteq> [] \<longrightarrow> (\<exists>i<length vs. findVoiceToSteal vi vs n = Some i)
               \<and> (\<exists>i<length vs. findFreeVoice vi vs n True = Some i))
   \<and> (0 \<le> newNumVoices \<longrightarrow>
        (\<exists>vs'. reduceNumVoices vi newNumVoices vs = Some (vs', 0)
              \<and> int (length vs') = min (int (length vs)) newNumVoices))"
  using findVoiceToStealWith_some [OF isSort_stdSort, of vs vi n]
        findFreeVoice_steal_some [of vs vi n]
        reduceLoop_terminates [of newNumVoices vi vs 0]
  by (simp add: findVoiceToSteal_def reduceNumVoices_def)

theorem findVoiceToSteal_returns_voice_witness:
  "[mkVoice 40 keyDown 0, mkVoice 80 keyDown 1] \<noteq> []
   \<and> findVoiceToSteal plainVoice [mkVoice 40 keyDown 0, mkVoice 80 keyDown 1] MPENote_default = Some 1
   \<and> findFreeVoice plainVoice [mkVoice 40 keyDown 0, mkVoice 80 keyDown 1] MPENote_default True = Some 1
   \<and> (0::int) \<le> 1
   \<and> reduceNumVoices plainVoice 1 [mkVoice 40 keyDown 0, mkVoice 80 keyDown 1]
       = Some ([mkVoice 40 keyDown 0], 0)"
proof -
  have a: "findVoiceToSteal plainVoice [mkVoice 40 keyDown 0, mkVoice 80 keyDown 1] MPENote_default = Some 1"
    by code_simp
  have b: "findFreeVoice plainVoice [mkVoice 40 keyDown 0, mkVoice 80 keyDown 1] MPENote_default True = Some 1"
    by code_simp
  have c: "reduceNumVoices plainVoice 1 [mkVoice 40 keyDown 0, mkVoice 80 keyDown 1]
       = Some ([mkVoice 40 keyDown 0], 0)"
    by code_simp
  show ?thesis
    using findVoiceToSteal_returns_voice
      [of "[mkVoice 40 keyDown 0, mkVoice 80 keyDown 1]" plainVoice MPENote_default 1] a b c
    by simp
qed

end
